theory Spec2Isabelle
  imports Main "HOL-Library.Multiset"
begin

section \<open>The ordered map underlying the graph (\<open>std::map\<close>)\<close>

text \<open>
  \<open>graph.h\<close> stores the adjacency structure as
  \<^verbatim>\<open>std::map<T, std::map<T, size_t> > adj\<close>.  A \<open>std::map\<close> iterates its
  entries in ascending key order and holds each key once, so it is modelled as an
  association list kept in ascending key order.  Lookup (\<open>find\<close>, \<open>at\<close>) is
  \<^const>\<open>map_of\<close>.
\<close>

datatype error =
    OutOfRange              \<comment> \<open>\<open>std::out_of_range\<close>, thrown by \<open>std::map::at\<close>\<close>
  | UndefinedBehaviour      \<comment> \<open>\<open>front()\<close>/\<open>back()\<close> of an empty list, or a dangling reference\<close>

text \<open>\<open>m[k] = v\<close>: insert the key at its place in the order, or overwrite its value.\<close>

fun map_set :: "'k::linorder \<Rightarrow> 'v \<Rightarrow> ('k \<times> 'v) list \<Rightarrow> ('k \<times> 'v) list" where
  "map_set k v [] = [(k, v)]"
| "map_set k v ((k', v') # m) =
     (if k < k' then (k, v) # (k', v') # m
      else if k = k' then (k, v) # m
      else (k', v') # map_set k v m)"

text \<open>\<open>m.erase(k)\<close>: drop the entry of key \<open>k\<close>, if there is one.\<close>

definition map_erase :: "'k \<Rightarrow> ('k \<times> 'v) list \<Rightarrow> ('k \<times> 'v) list" where
  "map_erase k m = filter (\<lambda>(k', _). k' \<noteq> k) m"

text \<open>
  \<open>m[k]\<close> used as a reference that is then mutated by \<open>f\<close>: \<open>operator[]\<close> first
  inserts the default value \<open>d\<close> when the key is absent, so the key is present afterwards
  whatever \<open>f\<close> does.
\<close>

definition map_subscript ::
  "'k::linorder \<Rightarrow> 'v \<Rightarrow> ('v \<Rightarrow> 'v) \<Rightarrow> ('k \<times> 'v) list \<Rightarrow> ('k \<times> 'v) list" where
  "map_subscript k d f m =
     map_set k (f (case map_of m k of None \<Rightarrow> d | Some v \<Rightarrow> v)) m"

text \<open>\<open>m.at(k)\<close>: throws \<open>std::out_of_range\<close> when the key is absent.\<close>

definition map_at :: "('k \<times> 'v) list \<Rightarrow> 'k \<Rightarrow> error + 'v" where
  "map_at m k = (case map_of m k of None \<Rightarrow> Inl OutOfRange | Some v \<Rightarrow> Inr v)"

section \<open>\<open>DiGraph<T>\<close>\<close>

type_synonym 'a graph = "('a \<times> ('a \<times> nat) list) list"

definition is_vertex :: "'a graph \<Rightarrow> 'a \<Rightarrow> bool" where
  "is_vertex adj v = (map_of adj v \<noteq> None)"

text \<open>
  \<open>is_vertex(v1) && adj.at(v1).find(v2) != adj.at(v1).end()\<close>: the \<open>at\<close> calls are
  only reached when \<open>v1\<close> is a key, so they cannot throw.
\<close>

definition is_edge :: "'a graph \<Rightarrow> 'a \<Rightarrow> 'a \<Rightarrow> bool" where
  "is_edge adj v1 v2 =
     (is_vertex adj v1 \<and>
      (case map_of adj v1 of None \<Rightarrow> False | Some m \<Rightarrow> map_of m v2 \<noteq> None))"

definition add_vertex :: "'a::linorder graph \<Rightarrow> 'a \<Rightarrow> 'a graph" where
  "add_vertex adj v = map_subscript v [] id adj"

definition DiGraph_update_edge :: "'a::linorder graph \<Rightarrow> 'a \<Rightarrow> 'a \<Rightarrow> nat \<Rightarrow> 'a graph" where
  "DiGraph_update_edge adj v1 v2 w =
     map_subscript v1 [] (map_set v2 w) (add_vertex adj v2)"

definition DiGraph_add_edge :: "'a::linorder graph \<Rightarrow> 'a \<Rightarrow> 'a \<Rightarrow> nat \<Rightarrow> 'a graph" where
  "DiGraph_add_edge adj v1 v2 w =
     (if \<not> is_edge adj v1 v2 then DiGraph_update_edge adj v1 v2 w else adj)"

definition DiGraph_remove_edge :: "'a::linorder graph \<Rightarrow> 'a \<Rightarrow> 'a \<Rightarrow> 'a graph" where
  "DiGraph_remove_edge adj v1 v2 = map_subscript v1 [] (map_erase v2) adj"

definition degree_out :: "'a graph \<Rightarrow> 'a \<Rightarrow> error + nat" where
  "degree_out adj v =
     (case map_at adj v of Inl e \<Rightarrow> Inl e | Inr m \<Rightarrow> Inr (length m))"

definition neighbors :: "'a graph \<Rightarrow> 'a \<Rightarrow> 'a list" where
  "neighbors adj v =
     (if is_vertex adj v
      then (case map_of adj v of None \<Rightarrow> [] | Some m \<Rightarrow> map fst m)
      else [])"

definition neighbors_in :: "'a graph \<Rightarrow> 'a \<Rightarrow> 'a list" where
  "neighbors_in adj v = map fst (filter (\<lambda>p. map_of (snd p) v \<noteq> None) adj)"

definition degree_in :: "'a graph \<Rightarrow> 'a \<Rightarrow> nat" where
  "degree_in adj v = length (neighbors_in adj v)"

definition vertices :: "'a graph \<Rightarrow> 'a list" where
  "vertices adj = map fst adj"

definition remove :: "'a graph \<Rightarrow> 'a \<Rightarrow> 'a graph" where
  "remove adj v = map_erase v (map (\<lambda>p. (fst p, map_erase v (snd p))) adj)"

text \<open>
  \<open>is_vertex(v1) && is_edge(v1, v2) ? adj.at(v1).at(v2) : 0\<close>: both \<open>at\<close> calls are
  behind the guard.
\<close>

definition weight :: "'a graph \<Rightarrow> 'a \<Rightarrow> 'a \<Rightarrow> nat" where
  "weight adj v1 v2 =
     (if is_vertex adj v1 \<and> is_edge adj v1 v2
      then (case map_of adj v1 of None \<Rightarrow> 0
            | Some m \<Rightarrow> (case map_of m v2 of None \<Rightarrow> 0 | Some w \<Rightarrow> w))
      else 0)"

section \<open>\<open>Graph<T>\<close>: the undirected specialisation\<close>

definition Graph_add_edge :: "'a::linorder graph \<Rightarrow> 'a \<Rightarrow> 'a \<Rightarrow> nat \<Rightarrow> 'a graph" where
  "Graph_add_edge adj v1 v2 w = DiGraph_add_edge (DiGraph_add_edge adj v1 v2 w) v2 v1 w"

definition degree :: "'a graph \<Rightarrow> 'a \<Rightarrow> error + nat" where
  "degree adj v = degree_out adj v"

definition Graph_remove_edge :: "'a::linorder graph \<Rightarrow> 'a \<Rightarrow> 'a \<Rightarrow> 'a graph" where
  "Graph_remove_edge adj v1 v2 = DiGraph_remove_edge (DiGraph_remove_edge adj v1 v2) v2 v1"

definition Graph_update_edge :: "'a::linorder graph \<Rightarrow> 'a \<Rightarrow> 'a \<Rightarrow> nat \<Rightarrow> 'a graph" where
  "Graph_update_edge adj v1 v2 w =
     DiGraph_update_edge (DiGraph_update_edge adj v1 v2 w) v2 v1 w"

section \<open>\<open>euler.cpp\<close>\<close>

text \<open>
  \<open>extend_path\<close> receives its graph by reference and mutates it, and \<open>find_path\<close>
  hands it a copy of the caller's graph.  Graph objects therefore live in a store, a list
  of graphs addressed by position: a reference is an index, a new object is appended, and
  a local object is dropped from the end when its scope is left.
\<close>

type_synonym store = "int graph list"

text \<open>
  Lines 71--74 of \<open>extend_path\<close>: \<open>v_next\<close> starts at 0 and the loop over the
  neighbours assigns \<open>v\<close> whenever \<open>v_next\<close> is still 0 and \<open>v\<close> is not the front.
\<close>

definition find_neighbor :: "int list \<Rightarrow> int \<Rightarrow> int" where
  "find_neighbor ns front =
     foldl (\<lambda>v_next v. if v_next = 0 \<and> v \<noteq> front then v else v_next) 0 ns"

text \<open>Lines 70--78: the vertex that \<open>extend_path\<close> appends.\<close>

definition next_vertex :: "int graph \<Rightarrow> int list \<Rightarrow> int" where
  "next_vertex g p =
     (let v_next = find_neighbor (neighbors g (last p)) (hd p)
      in if v_next = 0 then hd p else v_next)"

text \<open>
  The recursion of \<open>extend_path\<close> need not end, so the function is partial: \<open>None\<close>
  is a run that never returns.
\<close>

partial_function (option) extend_path ::
  "store \<Rightarrow> nat \<Rightarrow> int list \<Rightarrow> (error + store \<times> int list) option" where
  "extend_path s g p =
     (if \<not> g < length s \<or> p = [] then Some (Inl UndefinedBehaviour)
      else case degree (s ! g) (last p) of
             Inl e \<Rightarrow> Some (Inl e)
           | Inr d \<Rightarrow>
               if d = 0 then Some (Inr (s, p))
               else let v_next = next_vertex (s ! g) p
                    in extend_path (s[g := Graph_remove_edge (s ! g) (last p) v_next]) g
                         (p @ [v_next]))"

declare extend_path.simps [code]

text \<open>
  Lines 92--100 of \<open>find_path\<close>: the loop over \<open>g.vertices()\<close>.  The counter
  \<open>count_odd\<close> is at most the number of vertices; it is an unbounded integer here, the
  \<open>int\<close> of the source would need more than \<open>2^31 - 1\<close> odd-degree vertices to
  overflow.  Vertex labels are integers too; the code never computes with them.
\<close>

fun count_odd_loop :: "int graph \<Rightarrow> int list \<Rightarrow> int \<times> int \<Rightarrow> error + int \<times> int" where
  "count_odd_loop g [] (count_odd, first_odd) = Inr (count_odd, first_odd)"
| "count_odd_loop g (v # vs) (count_odd, first_odd) =
     (case degree g v of
        Inl e \<Rightarrow> Inl e
      | Inr d \<Rightarrow>
          if d mod 2 \<noteq> 0
          then count_odd_loop g vs (count_odd + 1, if first_odd = 0 then v else first_odd)
          else count_odd_loop g vs (count_odd, first_odd))"

definition find_path :: "store \<Rightarrow> nat \<Rightarrow> (error + store \<times> int list) option" where
  "find_path s g =
     (if \<not> g < length s then Some (Inl UndefinedBehaviour)
      else case count_odd_loop (s ! g) (vertices (s ! g)) (0, 0) of
             Inl e \<Rightarrow> Some (Inl e)
           | Inr (count_odd, first_odd) \<Rightarrow>
               if count_odd = 0 \<or> count_odd = 2
               then (if first_odd = 0 \<and> vertices (s ! g) = []
                     then Some (Inl UndefinedBehaviour)
                     else let p = [if first_odd \<noteq> 0 then first_odd else hd (vertices (s ! g))];
                              g_copy = length s
                          in case extend_path (s @ [s ! g]) g_copy p of
                               None \<Rightarrow> None
                             | Some (Inl e) \<Rightarrow> Some (Inl e)
                             | Some (Inr (s', p')) \<Rightarrow> Some (Inr (butlast s', p')))
               else Some (Inr (s, [])))"


section \<open>Edges of a graph and of a trail\<close>

text \<open>
  The undirected edges of a graph, each listed once as a pair \<open>(u, v)\<close> with
  \<open>u \<le> v\<close>, and the undirected edges given by the consecutive pairs of a trail, in the
  same normal form.
\<close>

definition edge_list :: "int graph \<Rightarrow> (int \<times> int) list" where
  "edge_list g =
     concat (map (\<lambda>p. map (\<lambda>q. (fst p, fst q)) (filter (\<lambda>q. fst p \<le> fst q) (snd p))) g)"

definition trail_edges :: "int list \<Rightarrow> (int \<times> int) list" where
  "trail_edges p = map (\<lambda>e. (min (fst e) (snd e), max (fst e) (snd e))) (zip p (tl p))"

text \<open>Whether \<open>degree\<close> returns an odd number, and the odd-degree vertices in vertex order.\<close>

definition odd_degree :: "int graph \<Rightarrow> int \<Rightarrow> bool" where
  "odd_degree g v = (case degree g v of Inl e \<Rightarrow> False | Inr d \<Rightarrow> d mod 2 \<noteq> 0)"

definition odd_vertices :: "int graph \<Rightarrow> int list" where
  "odd_vertices g = filter (odd_degree g) (vertices g)"

text \<open>The first entry of a list that is not 0, and 0 when there is none.\<close>

definition first_nonzero :: "int list \<Rightarrow> int" where
  "first_nonzero xs = (case filter (\<lambda>v. v \<noteq> 0) xs of [] \<Rightarrow> 0 | x # _ \<Rightarrow> x)"

section \<open>The sample graphs of \<open>main\<close>\<close>

text \<open>
  \<open>main\<close> builds each sample by \<open>add_edge(a, b)\<close> calls on a fresh \<open>Graph<int>\<close>,
  with the default weight 1.
\<close>

definition build :: "(int \<times> int) list \<Rightarrow> int graph" where
  "build es = foldl (\<lambda>g e. Graph_add_edge g (fst e) (snd e) 1) [] es"

definition sample_g1 :: "int graph" where
  "sample_g1 = build [(1,2),(1,3),(1,4),(1,5),(2,3),(2,5),(2,6),(3,6),(3,7),(4,5),(5,6),(6,7)]"

definition sample_g3 :: "int graph" where
  "sample_g3 = build [(1,2),(1,3),(1,4),(1,5),(2,3),(2,5),(3,6),(4,5),(4,6),(5,6)]"

text \<open>A triangle 1-2-3 and a triangle 2-4-5 that share vertex 2.\<close>

definition two_triangles :: "int graph" where
  "two_triangles = build [(1,2),(1,3),(2,3),(2,4),(2,5),(4,5)]"

section \<open>The selection rule as the specification words it\<close>

text \<open>
  The specification's rule for the next vertex: among the remaining neighbours of the
  last vertex of the trail, in their order, the first that is not the start vertex; the
  start vertex itself when there is no such neighbour.
\<close>

definition spec_next_vertex :: "int graph \<Rightarrow> int list \<Rightarrow> int" where
  "spec_next_vertex g p =
     (case filter (\<lambda>v. v \<noteq> hd p) (neighbors g (last p)) of [] \<Rightarrow> hd p | v # _ \<Rightarrow> v)"

text \<open>A triangle on the vertices -1, 0 and 1.\<close>

definition zero_triangle :: "int graph" where
  "zero_triangle = build [(-1,0),(0,1),(1,-1)]"

section \<open>Undirected graphs that the operations can build\<close>

text \<open>
  The entry of the adjacency structure for the pair \<open>(a, b)\<close>: the weight stored for
  the edge from \<open>a\<close> to \<open>b\<close>, if there is one.
\<close>

definition adjm :: "'a graph \<Rightarrow> 'a \<Rightarrow> 'a \<Rightarrow> nat option" where
  "adjm g a b = (case map_of g a of None \<Rightarrow> None | Some m \<Rightarrow> map_of m b)"

text \<open>
  The graphs reached from the empty \<open>Graph<T>\<close> by the undirected operations
  \<open>add_vertex\<close>, \<open>add_edge\<close>, \<open>update_edge\<close>, \<open>remove_edge\<close> and \<open>remove\<close>.
\<close>

inductive reachable :: "'a::linorder graph \<Rightarrow> bool" where
  empty: "reachable []"
| add_vertex: "reachable g \<Longrightarrow> reachable (add_vertex g v)"
| add_edge: "reachable g \<Longrightarrow> reachable (Graph_add_edge g v1 v2 w)"
| update_edge: "reachable g \<Longrightarrow> reachable (Graph_update_edge g v1 v2 w)"
| remove_edge: "reachable g \<Longrightarrow> reachable (Graph_remove_edge g v1 v2)"
| remove: "reachable g \<Longrightarrow> reachable (remove g v)"

definition symmetric :: "'a graph \<Rightarrow> bool" where
  "symmetric g = (\<forall>a b. adjm g a b = adjm g b a)"

section \<open>Postcondition of the walk\<close>

text \<open>What is known of a run of \<open>extend_path\<close> that returns normally.\<close>

definition extend_post :: "store \<Rightarrow> nat \<Rightarrow> int list \<Rightarrow> (error + store \<times> int list) \<Rightarrow> bool" where
  "extend_post s g p r =
     (case r of
        Inl e \<Rightarrow> True
      | Inr (s', p') \<Rightarrow>
          length s' = length s \<and> (\<forall>i. i \<noteq> g \<longrightarrow> s' ! i = s ! i) \<and> g < length s
          \<and> p' \<noteq> [] \<and> hd p' = hd p \<and> degree (s' ! g) (last p') = Inr 0)"

section \<open>The edges left in a graph\<close>

text \<open>The pairs that have an adjacency entry.\<close>

definition edge_set :: "'a graph \<Rightarrow> ('a \<times> 'a) set" where
  "edge_set g = {(a, b). adjm g a b \<noteq> None}"

text \<open>No vertex has 0 as a neighbour.\<close>

definition no_zero :: "int graph \<Rightarrow> bool" where
  "no_zero g = (\<forall>u. adjm g u 0 = None)"

text \<open>The second sample graph of \<open>main\<close>.\<close>

definition sample_g2 :: "int graph" where
  "sample_g2 = build [(1,2),(1,4),(2,3),(2,4),(3,5),(4,5)]"

text \<open>The path 1-2-3-0.\<close>

definition zero_path :: "int graph" where
  "zero_path = build [(1,2),(2,3),(3,0)]"

section \<open>Outcomes of a run\<close>

text \<open>The trail (or the error) of a run of \<open>find_path\<close>, without the store.\<close>

definition trail_of :: "(error + store \<times> int list) option \<Rightarrow> (error + int list) option" where
  "trail_of r = map_option (map_sum id snd) r"

text \<open>
  A graph without its weights: every vertex, in order, with the list of its neighbours.
\<close>

definition shape :: "'a graph \<Rightarrow> ('a \<times> 'a list) list" where
  "shape g = map (\<lambda>e. (fst e, map fst (snd e))) g"

text \<open>
  The outcome of a walk as seen through the reference \<open>g\<close>: the error, or the shape of
  the graph left behind that reference together with the trail.
\<close>

definition walk_result ::
  "nat \<Rightarrow> error + store \<times> int list \<Rightarrow> error + (int \<times> int list) list \<times> int list" where
  "walk_result g r = map_sum id (\<lambda>sp. (shape (fst sp ! g), snd sp)) r"

text \<open>
  A run that returned \<open>r1\<close> is matched by the run from any other store that holds a
  graph of the same shape behind its reference.
\<close>

definition walk_sim :: "store \<Rightarrow> nat \<Rightarrow> int list \<Rightarrow> error + store \<times> int list \<Rightarrow> bool" where
  "walk_sim s1 g1 p r1 =
     (\<forall>s2 g2. g1 < length s1 \<longrightarrow> g2 < length s2 \<longrightarrow> shape (s1 ! g1) = shape (s2 ! g2) \<longrightarrow>
        (\<exists>r2. extend_path s2 g2 p = Some r2 \<and> walk_result g1 r1 = walk_result g2 r2))"

text \<open>Every inner map of the adjacency structure is in ascending key order.\<close>

definition inner_sorted :: "'a::linorder graph \<Rightarrow> bool" where
  "inner_sorted g = (\<forall>e \<in> set g. sorted_wrt (<) (map fst (snd e)))"

section \<open>A walk that never ends\<close>

text \<open>The single edge between -1 and 0.\<close>

definition zero_edge :: "int graph" where
  "zero_edge = build [(-1,0)]"

text \<open>
  \<open>stuck\<close> excludes the states in which the walk stands at -1 on that graph, having
  started at -1: no run that returns passes through such a state.
\<close>

definition stuck :: "store \<Rightarrow> nat \<Rightarrow> int list \<Rightarrow> error + store \<times> int list \<Rightarrow> bool" where
  "stuck s g p r =
     (\<not> (g < length s \<and> s ! g = zero_edge \<and> p \<noteq> [] \<and> hd p = -1 \<and> last p = -1))"

section \<open>A walk that does not throw\<close>

text \<open>
  A run that starts on a vertex of the graph behind its reference returns a trail, not
  an error.
\<close>

definition walk_ok :: "store \<Rightarrow> nat \<Rightarrow> int list \<Rightarrow> error + store \<times> int list \<Rightarrow> bool" where
  "walk_ok s g p r =
     (g < length s \<and> p \<noteq> [] \<and> is_vertex (s ! g) (last p) \<longrightarrow> (\<exists>sp. r = Inr sp))"

text \<open>A triangle on the vertices 0, 1 and 2.\<close>

definition zero_start_triangle :: "int graph" where
  "zero_start_triangle = build [(0,1),(1,2),(2,0)]"

section \<open>The second sample graph, built another way\<close>

text \<open>
  The vertices and edges of the second sample graph of \<open>main\<close>, added in another
  order, with the endpoints swapped and with other weights.
\<close>

definition reweighted_g2 :: "int graph" where
  "reweighted_g2 =
     Graph_update_edge
       (foldl (\<lambda>g e. Graph_add_edge g (fst e) (snd e) 3) [] [(5,4),(5,3),(4,2),(3,2),(4,1),(2,1)])
       1 2 7"

section \<open>Lookup after each map operation\<close>

lemma map_of_map_set: "map_of (map_set k v m) = (map_of m)(k \<mapsto> v)"
  by (induction m) (auto simp: fun_eq_iff)

lemma map_of_map_erase: "map_of (map_erase k m) = (map_of m)(k := None)"
  by (induction m) (auto simp: map_erase_def fun_eq_iff)

lemma map_of_map_subscript:
  "map_of (map_subscript k d f m) =
     (map_of m)(k \<mapsto> f (case map_of m k of None \<Rightarrow> d | Some v \<Rightarrow> v))"
  by (simp add: map_subscript_def map_of_map_set)

lemma map_of_map_values:
  "map_of (map (\<lambda>p. (fst p, f (snd p))) m) k = map_option f (map_of m k)"
  by (induction m) auto

lemma map_of_remove:
  "map_of (remove g v) u = (if u = v then None else map_option (map_erase v) (map_of g u))"
  by (simp add: remove_def map_of_map_erase map_of_map_values)

lemma map_of_eq_None_fst: "(map_of m k = None) = (k \<notin> fst ` set m)"
  by (rule map_of_eq_None_iff)

lemma mem_neighbors: "v \<in> set (neighbors g u) \<longleftrightarrow> is_edge g u v"
proof (cases "map_of g u")
  case None
  then show ?thesis by (simp add: neighbors_def is_edge_def is_vertex_def)
next
  case (Some m)
  have "(map_of m v \<noteq> None) = (v \<in> fst ` set m)"
    by (simp add: map_of_eq_None_fst)
  with Some show ?thesis by (simp add: neighbors_def is_edge_def is_vertex_def)
qed

lemma mem_vertices: "v \<in> set (vertices g) \<longleftrightarrow> is_vertex g v"
  by (simp add: vertices_def is_vertex_def map_of_eq_None_fst)

section \<open>Removing an edge that does not exist\<close>

text \<open>
  Claim C4.  The claim is that \<open>remove_edge(v1, v2)\<close> leaves the graph unchanged, and
  creates no vertex, when the edge does not exist.  \<open>DiGraph::remove_edge\<close> is
  \<open>adj[v1].erase(v2)\<close>, and \<open>operator[]\<close> inserts \<open>v1\<close> when it is absent: on the
  empty graph the directed \<open>remove_edge(1, 2)\<close> creates vertex 1 and the undirected one
  creates vertices 1 and 2.
\<close>

theorem remove_edge_creates_vertex:
  "\<not> is_edge ([] :: int graph) 1 2
   \<and> DiGraph_remove_edge ([] :: int graph) 1 2 = [(1, [])]
   \<and> Graph_remove_edge ([] :: int graph) 1 2 = [(1, []), (2, [])]
   \<and> vertices (Graph_remove_edge ([] :: int graph) 1 2) \<noteq> vertices ([] :: int graph)"
  by (simp add: is_edge_def is_vertex_def Graph_remove_edge_def DiGraph_remove_edge_def
      map_subscript_def map_erase_def vertices_def)

section \<open>The sample runs\<close>

text \<open>
  Claim C7.  On the 7-vertex sample graph of \<open>main\<close>, whose degrees are all even,
  \<open>find_path\<close> returns a trail of exactly 13 vertices that starts and ends at vertex 1
  and whose 12 consecutive pairs use each edge of the graph exactly once.
\<close>

theorem scenario_A_circuit:
  "odd_vertices sample_g1 = []
   \<and> find_path [sample_g1] 0 = Some (Inr ([sample_g1], [1,2,3,6,2,5,4,1,3,7,6,5,1]))
   \<and> length [1,2,3,6,2,5,4,1,3,7,6,5,1::int] = 13
   \<and> hd [1,2,3,6,2,5,4,1,3,7,6,5,1::int] = 1
   \<and> last [1,2,3,6,2,5,4,1,3,7,6,5,1::int] = 1
   \<and> length (trail_edges [1,2,3,6,2,5,4,1,3,7,6,5,1]) = 12
   \<and> distinct (trail_edges [1,2,3,6,2,5,4,1,3,7,6,5,1])
   \<and> mset (trail_edges [1,2,3,6,2,5,4,1,3,7,6,5,1]) = mset (edge_list sample_g1)"
  by code_simp

text \<open>
  Claim C1.  The claim is that on every connected graph with 0 or 2 odd-degree vertices
  the returned trail covers the edges exactly.  The graph of two triangles sharing
  vertex 2 has only even degrees and every other vertex is adjacent to 2, yet the walk
  goes 1, 2, 3 and is then forced back to 1, where it stops: three of the six edges are
  never used.
\<close>

theorem two_triangles_stranded:
  "odd_vertices two_triangles = []
   \<and> list_all (\<lambda>v. v = 2 \<or> is_edge two_triangles 2 v) (vertices two_triangles)
   \<and> find_path [two_triangles] 0 = Some (Inr ([two_triangles], [1,2,3,1]))
   \<and> edge_list two_triangles = [(1,2),(1,3),(2,3),(2,4),(2,5),(4,5)]
   \<and> trail_edges [1,2,3,1] = [(1,2),(2,3),(1,3)]
   \<and> mset (trail_edges [1,2,3,1]) \<noteq> mset (edge_list two_triangles)"
  by code_simp

section \<open>The parity loop of \<open>find_path\<close>\<close>

lemma degree_vertex: "is_vertex g v \<Longrightarrow> \<exists>d. degree g v = Inr d"
  by (cases "map_of g v") (simp_all add: degree_def degree_out_def map_at_def is_vertex_def)

lemma first_nonzero_Nil: "first_nonzero [] = 0"
  by (simp add: first_nonzero_def)

lemma first_nonzero_Cons:
  "first_nonzero (v # vs) = (if v \<noteq> 0 then v else first_nonzero vs)"
  by (simp add: first_nonzero_def)

lemma count_odd_loop_odd:
  "d mod 2 \<noteq> 0 \<Longrightarrow> degree g v = Inr d \<Longrightarrow>
   count_odd_loop g (v # vs) (c, f) = count_odd_loop g vs (c + 1, if f = 0 then v else f)"
  by simp

lemma count_odd_loop_even:
  "\<not> d mod 2 \<noteq> 0 \<Longrightarrow> degree g v = Inr d \<Longrightarrow>
   count_odd_loop g (v # vs) (c, f) = count_odd_loop g vs (c, f)"
  by simp

lemma first_odd_step:
  "odd_degree g v \<Longrightarrow>
   Inr (c + 1 + int (length (filter (odd_degree g) vs)),
        if (if f = 0 then v else f) \<noteq> 0 then (if f = 0 then v else f)
        else first_nonzero (filter (odd_degree g) vs)) =
   (Inr (c + int (length (filter (odd_degree g) (v # vs))),
         if f \<noteq> 0 then f else first_nonzero (filter (odd_degree g) (v # vs)))
      :: error + int \<times> int)"
  by (simp add: first_nonzero_Cons)

text \<open>
  The loop never throws on the graph's own vertices; it counts the odd-degree vertices
  and leaves in \<open>first_odd\<close> the first of them that is not 0.
\<close>

lemma count_odd_loop_eq:
  "set vs \<subseteq> set (vertices g) \<Longrightarrow>
   count_odd_loop g vs (c, f) =
     Inr (c + int (length (filter (odd_degree g) vs)),
          if f \<noteq> 0 then f else first_nonzero (filter (odd_degree g) vs))"
proof (induction vs arbitrary: c f)
  case Nil
  show ?case by (simp add: first_nonzero_Nil)
next
  case (Cons v vs)
  from Cons.prems have "is_vertex g v" by (simp add: mem_vertices)
  then have "\<exists>d. degree g v = Inr d" by (rule degree_vertex)
  then obtain d where d: "degree g v = Inr d" ..
  from Cons.prems have sub: "set vs \<subseteq> set (vertices g)" by simp
  show ?case
  proof (cases "d mod 2 \<noteq> 0")
    case True
    then have od: "odd_degree g v" by (simp add: odd_degree_def d)
    have "count_odd_loop g (v # vs) (c, f) =
            count_odd_loop g vs (c + 1, if f = 0 then v else f)"
      using True d by (rule count_odd_loop_odd)
    also have "\<dots> = Inr (c + 1 + int (length (filter (odd_degree g) vs)),
          if (if f = 0 then v else f) \<noteq> 0 then (if f = 0 then v else f)
          else first_nonzero (filter (odd_degree g) vs))"
      using sub by (rule Cons.IH)
    also have "\<dots> = Inr (c + int (length (filter (odd_degree g) (v # vs))),
          if f \<noteq> 0 then f else first_nonzero (filter (odd_degree g) (v # vs)))"
      using od by (rule first_odd_step)
    finally show ?thesis .
  next
    case False
    then have od: "\<not> odd_degree g v" by (simp add: odd_degree_def d)
    have "count_odd_loop g (v # vs) (c, f) = count_odd_loop g vs (c, f)"
      using False d by (rule count_odd_loop_even)
    also have "\<dots> = Inr (c + int (length (filter (odd_degree g) vs)),
          if f \<noteq> 0 then f else first_nonzero (filter (odd_degree g) vs))"
      using sub by (rule Cons.IH)
    finally show ?thesis using od by simp
  qed
qed

lemma count_odd_loop_vertices:
  "count_odd_loop g (vertices g) (0, 0) =
     Inr (int (length (odd_vertices g)), first_nonzero (odd_vertices g))"
  by (simp add: count_odd_loop_eq odd_vertices_def)

text \<open>
  Claim C6.  When the number of odd-degree vertices is neither 0 nor 2, \<open>find_path\<close>
  returns the empty sequence (and the store as it was).  The witness is Scenario C, the
  third sample graph of \<open>main\<close>, which has 4 odd-degree vertices.
\<close>

theorem find_path_none:
  assumes "g < length s"
    and "length (odd_vertices (s ! g)) \<noteq> 0"
    and "length (odd_vertices (s ! g)) \<noteq> 2"
  shows "find_path s g = Some (Inr (s, []))"
  using assms by (simp add: find_path_def count_odd_loop_vertices)

theorem find_path_none_witness:
  "(0::nat) < length [sample_g3] \<and> length (odd_vertices ([sample_g3] ! 0)) = 4
   \<and> find_path [sample_g3] 0 = Some (Inr ([sample_g3], []))"
proof -
  have h: "length (odd_vertices ([sample_g3] ! 0)) = 4" by code_simp
  show ?thesis using h find_path_none [of 0 "[sample_g3]"] by simp
qed

section \<open>The vertex appended by one step of \<open>extend_path\<close>\<close>

lemma find_neighbor_foldl:
  "foldl (\<lambda>v_next v. if v_next = 0 \<and> v \<noteq> front then v else v_next) a ns =
     (if a \<noteq> 0 then a else first_nonzero (filter (\<lambda>v. v \<noteq> front) ns))"
proof (induction ns arbitrary: a)
  case Nil
  show ?case by (simp add: first_nonzero_Nil)
next
  case (Cons v ns)
  show ?case by (simp add: Cons.IH first_nonzero_Cons)
qed

lemma find_neighbor_eq:
  "find_neighbor ns front = first_nonzero (filter (\<lambda>v. v \<noteq> front) ns)"
  by (simp add: find_neighbor_def find_neighbor_foldl)

lemma first_nonzero_filter:
  "first_nonzero xs = (case filter (\<lambda>v. v \<noteq> 0) xs of [] \<Rightarrow> 0 | x # _ \<Rightarrow> x)"
  by (simp add: first_nonzero_def)

text \<open>What the code appends: the first neighbour that is neither the front nor 0.\<close>

lemma next_vertex_eq:
  "next_vertex g p =
     (case filter (\<lambda>v. v \<noteq> hd p \<and> v \<noteq> 0) (neighbors g (last p)) of
        [] \<Rightarrow> hd p | v # _ \<Rightarrow> v)"
proof -
  let ?xs = "filter (\<lambda>v. v \<noteq> hd p \<and> v \<noteq> 0) (neighbors g (last p))"
  have f: "filter (\<lambda>v. v \<noteq> 0) (filter (\<lambda>v. v \<noteq> hd p) (neighbors g (last p))) = ?xs"
    by (simp add: conj_commute)
  have nv: "next_vertex g p =
      (if (case ?xs of [] \<Rightarrow> 0 | x # _ \<Rightarrow> x) = 0 then hd p
       else (case ?xs of [] \<Rightarrow> 0 | x # _ \<Rightarrow> x))"
    by (simp add: next_vertex_def find_neighbor_eq first_nonzero_filter f Let_def)
  show ?thesis
  proof (cases ?xs)
    case Nil
    then show ?thesis by (simp add: nv)
  next
    case (Cons v vs)
    then have "v \<in> set ?xs" by simp
    then have "v \<noteq> 0" by simp
    with Cons show ?thesis by (simp add: nv)
  qed
qed

lemma first_filter_conj:
  "filter P xs = x # ys \<Longrightarrow> Q x \<Longrightarrow> \<exists>zs. filter (\<lambda>v. P v \<and> Q v) xs = x # zs"
  by (induction xs) (auto split: if_splits)

lemma next_vertex_spec:
  assumes "spec_next_vertex g p = 0 \<longrightarrow> hd p = 0"
  shows "next_vertex g p = spec_next_vertex g p"
proof (cases "filter (\<lambda>v. v \<noteq> hd p) (neighbors g (last p))")
  case Nil
  then have "filter (\<lambda>v. v \<noteq> hd p \<and> v \<noteq> 0) (neighbors g (last p)) = []"
    by (simp add: filter_empty_conv)
  with Nil show ?thesis by (simp add: next_vertex_eq spec_next_vertex_def)
next
  case (Cons x ys)
  then have "x \<in> set (filter (\<lambda>v. v \<noteq> hd p) (neighbors g (last p)))" by simp
  then have xf: "x \<noteq> hd p" by simp
  have sx: "spec_next_vertex g p = x" using Cons by (simp add: spec_next_vertex_def)
  with assms xf have "x \<noteq> 0" by auto
  with Cons have "\<exists>zs. filter (\<lambda>v. v \<noteq> hd p \<and> v \<noteq> 0) (neighbors g (last p)) = x # zs"
    by (rule first_filter_conj)
  then obtain zs where "filter (\<lambda>v. v \<noteq> hd p \<and> v \<noteq> 0) (neighbors g (last p)) = x # zs" ..
  with sx show ?thesis by (simp add: next_vertex_eq)
qed

lemma degree_neighbors: "degree g u = Inr d \<Longrightarrow> length (neighbors g u) = d"
  by (cases "map_of g u")
    (auto simp: degree_def degree_out_def map_at_def neighbors_def is_vertex_def)

lemma spec_next_vertex_start:
  assumes "degree g (last p) = Inr d" and "d \<noteq> 0" and "spec_next_vertex g p = hd p"
  shows "set (neighbors g (last p)) = {hd p}"
proof -
  have ne: "neighbors g (last p) \<noteq> []"
    using degree_neighbors [OF assms(1)] assms(2) by auto
  have "filter (\<lambda>v. v \<noteq> hd p) (neighbors g (last p)) = []"
  proof (cases "filter (\<lambda>v. v \<noteq> hd p) (neighbors g (last p))")
    case Nil
    then show ?thesis .
  next
    case (Cons x ys)
    then have "x \<in> set (filter (\<lambda>v. v \<noteq> hd p) (neighbors g (last p)))" by simp
    then have "x \<noteq> hd p" by simp
    moreover have "spec_next_vertex g p = x" using Cons by (simp add: spec_next_vertex_def)
    ultimately show ?thesis using assms(3) by simp
  qed
  then have "\<forall>v \<in> set (neighbors g (last p)). v = hd p"
    by (simp add: filter_empty_conv)
  with ne show ?thesis by (cases "neighbors g (last p)") auto
qed

section \<open>Symmetry of the undirected graph\<close>

lemma is_edge_adjm: "is_edge g a b = (adjm g a b \<noteq> None)"
  by (cases "map_of g a") (simp_all add: is_edge_def is_vertex_def adjm_def)

lemma weight_adjm: "weight g a b = (case adjm g a b of None \<Rightarrow> 0 | Some w \<Rightarrow> w)"
  by (cases "map_of g a") (simp_all add: weight_def is_edge_def is_vertex_def adjm_def)

lemma adjm_add_vertex: "adjm (add_vertex g v) a b = adjm g a b"
  by (cases "map_of g v") (simp_all add: adjm_def add_vertex_def map_of_map_subscript)

lemma adjm_DiGraph_update_edge:
  "adjm (DiGraph_update_edge g v1 v2 w) a b =
     (if a = v1 \<and> b = v2 then Some w else adjm g a b)"
proof -
  have "adjm (DiGraph_update_edge g v1 v2 w) a b =
        (if a = v1 then
           ((case map_of (add_vertex g v2) v1 of None \<Rightarrow> Map.empty | Some m \<Rightarrow> map_of m)(v2 \<mapsto> w)) b
         else adjm (add_vertex g v2) a b)"
    by (cases "map_of (add_vertex g v2) v1")
      (simp_all add: adjm_def DiGraph_update_edge_def map_of_map_subscript map_of_map_set)
  also have "\<dots> = (if a = v1 \<and> b = v2 then Some w else adjm (add_vertex g v2) a b)"
    by (cases "map_of (add_vertex g v2) v1") (simp_all add: adjm_def)
  finally show ?thesis by (simp add: adjm_add_vertex)
qed

lemma adjm_DiGraph_add_edge:
  "adjm (DiGraph_add_edge g v1 v2 w) a b =
     (if a = v1 \<and> b = v2 \<and> adjm g v1 v2 = None then Some w else adjm g a b)"
  by (simp add: DiGraph_add_edge_def adjm_DiGraph_update_edge is_edge_adjm)

lemma adjm_DiGraph_remove_edge:
  "adjm (DiGraph_remove_edge g v1 v2) a b =
     (if a = v1 \<and> b = v2 then None else adjm g a b)"
  by (cases "map_of g v1")
    (simp_all add: adjm_def DiGraph_remove_edge_def map_of_map_subscript map_of_map_erase)

lemma adjm_remove:
  "adjm (remove g v) a b = (if a = v \<or> b = v then None else adjm g a b)"
proof (cases "a = v")
  case True
  then show ?thesis by (simp add: adjm_def map_of_remove)
next
  case False
  show ?thesis
  proof (cases "map_of g a")
    case None
    with False show ?thesis by (simp add: adjm_def map_of_remove)
  next
    case (Some m)
    with False have "adjm (remove g v) a b = map_of (map_erase v m) b"
      by (simp add: adjm_def map_of_remove)
    also have "\<dots> = (if b = v then None else map_of m b)"
      by (simp add: map_of_map_erase)
    finally show ?thesis using False Some by (simp add: adjm_def)
  qed
qed

lemma adjm_Graph_update_edge:
  "adjm (Graph_update_edge g v1 v2 w) a b =
     (if (a = v1 \<and> b = v2) \<or> (a = v2 \<and> b = v1) then Some w else adjm g a b)"
  unfolding Graph_update_edge_def adjm_DiGraph_update_edge
  by (cases "a = v1"; cases "b = v2"; cases "a = v2"; cases "b = v1"; simp)

lemma adjm_Graph_remove_edge:
  "adjm (Graph_remove_edge g v1 v2) a b =
     (if (a = v1 \<and> b = v2) \<or> (a = v2 \<and> b = v1) then None else adjm g a b)"
  unfolding Graph_remove_edge_def adjm_DiGraph_remove_edge
  by (cases "a = v1"; cases "b = v2"; cases "a = v2"; cases "b = v1"; simp)

lemma adjm_Graph_add_edge:
  assumes "adjm g v1 v2 = adjm g v2 v1"
  shows "adjm (Graph_add_edge g v1 v2 w) a b =
     (if ((a = v1 \<and> b = v2) \<or> (a = v2 \<and> b = v1)) \<and> adjm g v1 v2 = None then Some w
      else adjm g a b)"
  unfolding Graph_add_edge_def adjm_DiGraph_add_edge using assms
  by (cases "a = v1"; cases "b = v2"; cases "a = v2"; cases "b = v1"; simp)

lemma symmetricD: "symmetric g \<Longrightarrow> adjm g a b = adjm g b a"
  by (simp add: symmetric_def)

lemma symmetric_empty: "symmetric []"
  by (simp add: symmetric_def adjm_def)

lemma symmetric_add_vertex: "symmetric g \<Longrightarrow> symmetric (add_vertex g v)"
  by (simp add: symmetric_def adjm_add_vertex)

lemma symmetric_add_edge:
  assumes "symmetric g" shows "symmetric (Graph_add_edge g v1 v2 w)"
  unfolding symmetric_def
proof (intro allI)
  fix a b
  have s: "adjm g v1 v2 = adjm g v2 v1" using assms by (rule symmetricD)
  have s': "adjm g a b = adjm g b a" using assms by (rule symmetricD)
  show "adjm (Graph_add_edge g v1 v2 w) a b = adjm (Graph_add_edge g v1 v2 w) b a"
    unfolding adjm_Graph_add_edge [OF s] using s'
    by (cases "a = v1"; cases "b = v2"; cases "a = v2"; cases "b = v1"; simp)
qed

lemma symmetric_update_edge:
  assumes "symmetric g" shows "symmetric (Graph_update_edge g v1 v2 w)"
  unfolding symmetric_def
proof (intro allI)
  fix a b
  have s': "adjm g a b = adjm g b a" using assms by (rule symmetricD)
  show "adjm (Graph_update_edge g v1 v2 w) a b = adjm (Graph_update_edge g v1 v2 w) b a"
    unfolding adjm_Graph_update_edge using s'
    by (cases "a = v1"; cases "b = v2"; cases "a = v2"; cases "b = v1"; simp)
qed

lemma symmetric_remove_edge:
  assumes "symmetric g" shows "symmetric (Graph_remove_edge g v1 v2)"
  unfolding symmetric_def
proof (intro allI)
  fix a b
  have s': "adjm g a b = adjm g b a" using assms by (rule symmetricD)
  show "adjm (Graph_remove_edge g v1 v2) a b = adjm (Graph_remove_edge g v1 v2) b a"
    unfolding adjm_Graph_remove_edge using s'
    by (cases "a = v1"; cases "b = v2"; cases "a = v2"; cases "b = v1"; simp)
qed

lemma symmetric_remove:
  assumes "symmetric g" shows "symmetric (remove g v)"
  unfolding symmetric_def
proof (intro allI)
  fix a b
  have s': "adjm g a b = adjm g b a" using assms by (rule symmetricD)
  show "adjm (remove g v) a b = adjm (remove g v) b a"
    unfolding adjm_remove using s'
    by (cases "a = v"; cases "b = v"; simp)
qed

lemma reachable_symmetric: "reachable g \<Longrightarrow> symmetric g"
  by (induction rule: reachable.induct)
    (simp_all add: symmetric_empty symmetric_add_vertex symmetric_add_edge
      symmetric_update_edge symmetric_remove_edge symmetric_remove)

text \<open>
  Claim C5.  In every undirected graph reached from the empty graph by \<open>add_vertex\<close>,
  \<open>add_edge\<close>, \<open>update_edge\<close>, \<open>remove_edge\<close> and \<open>remove\<close>, and for all
  vertices \<open>a\<close> and \<open>b\<close>: \<open>is_edge(a,b)\<close> equals \<open>is_edge(b,a)\<close>, and when the
  edge exists \<open>weight(a,b)\<close> equals \<open>weight(b,a)\<close>.
\<close>

theorem undirected_symmetry:
  assumes "reachable g"
  shows "is_edge g a b = is_edge g b a \<and> (is_edge g a b \<longrightarrow> weight g a b = weight g b a)"
  using symmetricD [OF reachable_symmetric [OF assms], of a b]
  by (simp add: is_edge_adjm weight_adjm)

lemma reachable_foldl:
  "reachable g \<Longrightarrow> reachable (foldl (\<lambda>g e. Graph_add_edge g (fst e) (snd e) 1) g es)"
  by (induction es arbitrary: g) (simp_all add: reachable.add_edge)

lemma reachable_build: "reachable (build es)"
  unfolding build_def by (rule reachable_foldl) (rule reachable.empty)

theorem undirected_symmetry_witness:
  "reachable (Graph_update_edge sample_g3 1 2 5)
   \<and> is_edge (Graph_update_edge sample_g3 1 2 5) 1 2
   \<and> is_edge (Graph_update_edge sample_g3 1 2 5) 2 1
   \<and> weight (Graph_update_edge sample_g3 1 2 5) 1 2 = 5
   \<and> weight (Graph_update_edge sample_g3 1 2 5) 2 1 = 5"
proof -
  have r: "reachable (Graph_update_edge sample_g3 1 2 5)"
    unfolding sample_g3_def by (rule reachable.update_edge) (rule reachable_build)
  have e: "is_edge (Graph_update_edge sample_g3 1 2 5) 1 2" by code_simp
  have w: "weight (Graph_update_edge sample_g3 1 2 5) 1 2 = 5" by code_simp
  show ?thesis using undirected_symmetry [OF r, of 1 2] r e w by simp
qed

section \<open>The walk only touches the graph it is given\<close>

lemma extend_post_return:
  "g < length s \<Longrightarrow> p \<noteq> [] \<Longrightarrow> degree (s ! g) (last p) = Inr 0 \<Longrightarrow>
   extend_post s g p (Inr (s, p))"
  by (simp add: extend_post_def)

lemma extend_post_step:
  assumes "g < length s" and "p \<noteq> []"
    and "extend_post (s[g := h]) g (p @ [v]) r"
  shows "extend_post s g p r"
proof (cases r)
  case (Inl e)
  then show ?thesis by (simp add: extend_post_def)
next
  case (Inr sp)
  obtain s' p' where sp: "sp = (s', p')" by (cases sp)
  from assms(3) Inr sp
  have a: "length s' = length s" "\<forall>i. i \<noteq> g \<longrightarrow> s' ! i = (s[g := h]) ! i"
    "p' \<noteq> []" "hd p' = hd (p @ [v])" "degree (s' ! g) (last p') = Inr 0"
    by (simp_all add: extend_post_def)
  from a(2) have "\<forall>i. i \<noteq> g \<longrightarrow> s' ! i = s ! i" by simp
  moreover from a(4) assms(2) have "hd p' = hd p" by simp
  ultimately show ?thesis using Inr sp a(1,3,5) assms(1) by (simp add: extend_post_def)
qed

lemma extend_path_post:
  assumes "extend_path s g p = Some r"
  shows "extend_post s g p r"
proof (rule extend_path.raw_induct [where P = extend_post, OF _ assms])
  fix f s g p r
  assume IH: "\<And>s g p r. f s g p = Some r \<Longrightarrow> extend_post s g p r"
  assume eq: "(if \<not> g < length s \<or> p = [] then Some (Inl UndefinedBehaviour)
      else case degree (s ! g) (last p) of
             Inl e \<Rightarrow> Some (Inl e)
           | Inr d \<Rightarrow>
               if d = 0 then Some (Inr (s, p))
               else let v_next = next_vertex (s ! g) p
                    in f (s[g := Graph_remove_edge (s ! g) (last p) v_next]) g
                         (p @ [v_next])) = Some r"
  show "extend_post s g p r"
  proof (cases "\<not> g < length s \<or> p = []")
    case True
    with eq have "r = Inl UndefinedBehaviour" by auto
    then show ?thesis by (simp add: extend_post_def)
  next
    case False
    then have g: "g < length s" and p: "p \<noteq> []" by simp_all
    show ?thesis
    proof (cases "degree (s ! g) (last p)")
      case (Inl e)
      with eq g p have "r = Inl e" by auto
      then show ?thesis by (simp add: extend_post_def)
    next
      case (Inr d)
      show ?thesis
      proof (cases "d = 0")
        case True
        with eq g p Inr have "r = Inr (s, p)" by auto
        with g p Inr True show ?thesis by (simp add: extend_post_return)
      next
        case nz: False
        with eq g p Inr
        have "f (s[g := Graph_remove_edge (s ! g) (last p) (next_vertex (s ! g) p)]) g
                (p @ [next_vertex (s ! g) p]) = Some r"
          by (simp add: Let_def)
        then have "extend_post (s[g := Graph_remove_edge (s ! g) (last p) (next_vertex (s ! g) p)]) g
                (p @ [next_vertex (s ! g) p]) r"
          by (rule IH)
        with g p show ?thesis by (rule extend_post_step)
      qed
    qed
  qed
qed

lemma butlast_restore:
  assumes "length s2 = Suc (length s)" and "\<forall>i. i \<noteq> length s \<longrightarrow> s2 ! i = (s @ [x]) ! i"
  shows "butlast s2 = s"
proof (rule nth_equalityI)
  show "length (butlast s2) = length s" using assms(1) by simp
next
  fix i assume "i < length (butlast s2)"
  then have i: "i < length s" using assms(1) by simp
  then have "butlast s2 ! i = s2 ! i" using assms(1) by (simp add: nth_butlast)
  also have "\<dots> = (s @ [x]) ! i" using assms(2) i by simp
  also have "\<dots> = s ! i" using i by (simp add: nth_append)
  finally show "butlast s2 ! i = s ! i" .
qed

lemma find_path_unfold:
  "g < length s \<Longrightarrow>
   find_path s g =
     (if length (odd_vertices (s ! g)) = 0 \<or> length (odd_vertices (s ! g)) = 2
      then (if first_nonzero (odd_vertices (s ! g)) = 0 \<and> vertices (s ! g) = []
            then Some (Inl UndefinedBehaviour)
            else case extend_path (s @ [s ! g]) (length s)
                        [if first_nonzero (odd_vertices (s ! g)) \<noteq> 0
                         then first_nonzero (odd_vertices (s ! g))
                         else hd (vertices (s ! g))] of
                   None \<Rightarrow> None
                 | Some (Inl e) \<Rightarrow> Some (Inl e)
                 | Some (Inr (s', p')) \<Rightarrow> Some (Inr (butlast s', p')))
      else Some (Inr (s, [])))"
  by (simp add: find_path_def count_odd_loop_vertices)

lemma find_path_cases:
  assumes "find_path s g = Some (Inr (s', p))"
  shows "(s' = s \<and> p = []) \<or>
         (\<exists>s2 p0. extend_path (s @ [s ! g]) (length s) p0 = Some (Inr (s2, p)) \<and> s' = butlast s2)"
proof -
  have g: "g < length s"
  proof (rule ccontr)
    assume "\<not> g < length s"
    with assms show False by (simp add: find_path_def)
  qed
  define p0 where "p0 = [if first_nonzero (odd_vertices (s ! g)) \<noteq> 0
              then first_nonzero (odd_vertices (s ! g)) else hd (vertices (s ! g))]"
  note unfold = find_path_unfold [OF g, folded p0_def]
  let ?c = "length (odd_vertices (s ! g))"
  show ?thesis
  proof (cases "?c = 0 \<or> ?c = 2")
    case False
    with assms have "s' = s \<and> p = []" unfolding unfold by simp
    then show ?thesis ..
  next
    case True
    show ?thesis
    proof (cases "extend_path (s @ [s ! g]) (length s) p0")
      case None
      with assms True show ?thesis unfolding unfold by (simp split: if_splits)
    next
      case (Some r)
      show ?thesis
      proof (cases r)
        case (Inl e)
        with assms True Some show ?thesis unfolding unfold by (simp split: if_splits)
      next
        case (Inr sp)
        obtain s2 p2 where sp: "sp = (s2, p2)" by (cases sp)
        from assms True Some Inr sp have "s' = butlast s2 \<and> p2 = p"
          unfolding unfold by (simp split: if_splits)
        with Some Inr sp show ?thesis by blast
      qed
    qed
  qed
qed

text \<open>
  Claim C8.  \<open>find_path\<close> leaves the caller's graph unchanged: the edge removals of
  the walk happen on the copy, a separate object of the store, and when \<open>find_path\<close>
  returns, the store, and with it the graph behind the caller's reference and every
  query on it, is what it was before the call.
\<close>

theorem find_path_frame:
  assumes "find_path s g = Some (Inr (s', p))"
  shows "s' = s \<and> s' ! g = s ! g"
proof -
  from find_path_cases [OF assms] have "s' = s"
  proof
    assume "s' = s \<and> p = []"
    then show ?thesis by simp
  next
    assume "\<exists>s2 p0. extend_path (s @ [s ! g]) (length s) p0 = Some (Inr (s2, p)) \<and> s' = butlast s2"
    then obtain s2 p0 where
      w: "extend_path (s @ [s ! g]) (length s) p0 = Some (Inr (s2, p))" and s': "s' = butlast s2"
      by blast
    from extend_path_post [OF w]
    have "length s2 = Suc (length s)" "\<forall>i. i \<noteq> length s \<longrightarrow> s2 ! i = (s @ [s ! g]) ! i"
      by (simp_all add: extend_post_def)
    then have "butlast s2 = s" by (rule butlast_restore)
    with s' show ?thesis by simp
  qed
  then show ?thesis by simp
qed

theorem find_path_frame_witness:
  "find_path [sample_g1] 0 = Some (Inr ([sample_g1], [1,2,3,6,2,5,4,1,3,7,6,5,1]))
   \<and> [sample_g1] ! 0 = sample_g1"
proof -
  have r: "find_path [sample_g1] 0 = Some (Inr ([sample_g1], [1,2,3,6,2,5,4,1,3,7,6,5,1]))"
    by code_simp
  from find_path_frame [OF r] r show ?thesis by simp
qed

section \<open>Vertex order\<close>

lemma keys_map_set: "fst ` set (map_set k v m) = insert k (fst ` set m)"
proof -
  have "dom (map_of (map_set k v m)) = insert k (dom (map_of m))"
    by (simp add: map_of_map_set)
  then show ?thesis by (simp add: dom_map_of_conv_image_fst)
qed

lemma sorted_map_set:
  "sorted_wrt (<) (map fst m) \<Longrightarrow> sorted_wrt (<) (map fst (map_set k v m))"
proof (induction m)
  case Nil
  show ?case by simp
next
  case (Cons e m)
  obtain k' v' where e: "e = (k', v')" by (cases e)
  from Cons.prems e have tl: "sorted_wrt (<) (map fst m)" and hd: "\<forall>x \<in> fst ` set m. k' < x"
    by simp_all
  show ?case
  proof (cases "k < k'")
    case True
    with hd tl e show ?thesis by auto
  next
    case False
    show ?thesis
    proof (cases "k = k'")
      case True
      with hd tl e show ?thesis by simp
    next
      case ne: False
      with False have "k' < k" by simp
      moreover have "sorted_wrt (<) (map fst (map_set k v m))" using tl by (rule Cons.IH)
      ultimately show ?thesis using hd e False ne
        by (simp add: keys_map_set)
    qed
  qed
qed

lemma sorted_map_erase:
  "sorted_wrt (<) (map fst m) \<Longrightarrow> sorted_wrt (<) (map fst (map_erase k m))"
  by (simp add: map_erase_def sorted_wrt_map sorted_wrt_filter)

lemma sorted_map_subscript:
  "sorted_wrt (<) (map fst m) \<Longrightarrow> sorted_wrt (<) (map fst (map_subscript k d f m))"
  by (simp add: map_subscript_def sorted_map_set)

lemma keys_map_values: "map fst (map (\<lambda>p. (fst p, f (snd p))) m) = map fst m"
  by simp

lemma reachable_sorted: "reachable g \<Longrightarrow> sorted_wrt (<) (vertices g)"
  unfolding vertices_def
proof (induction rule: reachable.induct)
  case empty
  show ?case by simp
next
  case (add_vertex g v)
  then show ?case by (simp add: add_vertex_def sorted_map_subscript)
next
  case (add_edge g v1 v2 w)
  then show ?case
    by (simp add: Graph_add_edge_def DiGraph_add_edge_def DiGraph_update_edge_def
        add_vertex_def sorted_map_subscript)
next
  case (update_edge g v1 v2 w)
  then show ?case
    by (simp add: Graph_update_edge_def DiGraph_update_edge_def
        add_vertex_def sorted_map_subscript)
next
  case (remove_edge g v1 v2)
  then show ?case
    by (simp add: Graph_remove_edge_def DiGraph_remove_edge_def sorted_map_subscript)
next
  case (remove g v)
  have "sorted_wrt (<) (map fst (map (\<lambda>p. (fst p, map_erase v (snd p))) g))"
    using remove.IH by (simp only: keys_map_values)
  then show ?case unfolding remove_def by (rule sorted_map_erase)
qed

section \<open>Every real step removes an edge\<close>

lemma finite_edge_set: "finite (edge_set g)"
proof -
  have "edge_set g \<subseteq> fst ` set g \<times> (\<Union>e \<in> set g. fst ` set (snd e))"
  proof
    fix x assume "x \<in> edge_set g"
    then obtain a b where x: "x = (a, b)" and ab: "adjm g a b \<noteq> None"
      by (auto simp: edge_set_def)
    from ab obtain m where m: "map_of g a = Some m" and b: "map_of m b \<noteq> None"
      by (cases "map_of g a") (simp_all add: adjm_def)
    from m have am: "(a, m) \<in> set g" by (rule map_of_SomeD)
    from b have "b \<in> fst ` set m" by (simp add: map_of_eq_None_fst)
    with am x show "x \<in> fst ` set g \<times> (\<Union>e \<in> set g. fst ` set (snd e))"
      by force
  qed
  moreover have "finite (fst ` set g \<times> (\<Union>e \<in> set g. fst ` set (snd e)))"
    by simp
  ultimately show ?thesis by (rule finite_subset)
qed

lemma edge_set_remove_edge:
  "edge_set (Graph_remove_edge g u v) = edge_set g - {(u, v), (v, u)}"
proof (rule set_eqI)
  fix x :: "'a \<times> 'a"
  obtain a b where x: "x = (a, b)" by (cases x)
  show "x \<in> edge_set (Graph_remove_edge g u v) \<longleftrightarrow> x \<in> edge_set g - {(u, v), (v, u)}"
    unfolding x edge_set_def
    by (cases "a = u"; cases "b = v"; cases "a = v"; cases "b = u";
        simp add: adjm_Graph_remove_edge)
qed

lemma card_edge_set_remove:
  assumes "adjm g u v \<noteq> None"
  shows "card (edge_set (Graph_remove_edge g u v)) < card (edge_set g)"
proof -
  have "(u, v) \<in> edge_set g" using assms by (simp add: edge_set_def)
  then have "edge_set g - {(u, v), (v, u)} \<subset> edge_set g" by blast
  then show ?thesis
    unfolding edge_set_remove_edge using finite_edge_set by (rule psubset_card_mono [rotated])
qed

lemma is_vertex_DiGraph_remove_edge:
  "is_vertex (DiGraph_remove_edge g u v) x = (x = u \<or> is_vertex g x)"
  by (simp add: is_vertex_def DiGraph_remove_edge_def map_of_map_subscript)

lemma is_vertex_Graph_remove_edge:
  "is_vertex (Graph_remove_edge g u v) x = (x = u \<or> x = v \<or> is_vertex g x)"
  unfolding Graph_remove_edge_def is_vertex_DiGraph_remove_edge by blast


lemma no_zero_remove_edge: "no_zero g \<Longrightarrow> no_zero (Graph_remove_edge g u v)"
  by (simp add: no_zero_def adjm_Graph_remove_edge)

lemma spec_next_vertex_cases:
  "(filter (\<lambda>v. v \<noteq> hd p) (neighbors g (last p)) = [] \<and> spec_next_vertex g p = hd p) \<or>
   (spec_next_vertex g p \<in> set (neighbors g (last p)) \<and> spec_next_vertex g p \<noteq> hd p)"
proof (cases "filter (\<lambda>v. v \<noteq> hd p) (neighbors g (last p))")
  case Nil
  then show ?thesis by (simp add: spec_next_vertex_def)
next
  case (Cons x xs)
  then have "x \<in> set (filter (\<lambda>v. v \<noteq> hd p) (neighbors g (last p)))" by simp
  then have "x \<in> set (neighbors g (last p)) \<and> x \<noteq> hd p" by simp
  moreover have "spec_next_vertex g p = x" using Cons by (simp add: spec_next_vertex_def)
  ultimately show ?thesis by simp
qed

section \<open>Unfolding \<open>find_path\<close> when the walk runs\<close>

lemma trail_of_walk:
  "trail_of (case r of None \<Rightarrow> None | Some (Inl e) \<Rightarrow> Some (Inl e)
             | Some (Inr (s', p')) \<Rightarrow> Some (Inr (butlast s', p'))) =
   map_option (map_sum id snd) (map_option (walk_result g) r)"
  by (cases r rule: option.exhaust; simp add: trail_of_def walk_result_def split: sum.split prod.split)

lemma find_path_walk:
  assumes g: "g < length s"
    and c: "length (odd_vertices (s ! g)) = 0 \<or> length (odd_vertices (s ! g)) = 2"
    and v: "\<not> (first_nonzero (odd_vertices (s ! g)) = 0 \<and> vertices (s ! g) = [])"
  shows "find_path s g =
     (case extend_path (s @ [s ! g]) (length s)
             [if first_nonzero (odd_vertices (s ! g)) \<noteq> 0
              then first_nonzero (odd_vertices (s ! g))
              else hd (vertices (s ! g))] of
        None \<Rightarrow> None
      | Some (Inl e) \<Rightarrow> Some (Inl e)
      | Some (Inr (s', p')) \<Rightarrow> Some (Inr (butlast s', p')))"
  unfolding find_path_unfold [OF g] if_P [OF c] if_not_P [OF v] by (rule refl)

section \<open>Queries on a vertex that is not in the graph\<close>

text \<open>
  Claim C9.  For a vertex \<open>v\<close> that is not in the graph, \<open>degree_out(v)\<close> and the
  undirected \<open>degree(v)\<close> raise \<open>std::out_of_range\<close> instead of returning 0, whereas
  \<open>is_edge\<close>, \<open>weight\<close> and \<open>neighbors\<close> on \<open>v\<close> return \<open>false\<close>, 0 and the empty
  list without any error.  In a graph built by the undirected operations the same holds
  with \<open>v\<close> as the second endpoint.
\<close>

theorem absent_vertex_queries:
  assumes "\<not> is_vertex g v"
  shows "degree_out g v = Inl OutOfRange \<and> degree g v = Inl OutOfRange
    \<and> is_edge g v x = False \<and> weight g v x = 0 \<and> neighbors g v = []
    \<and> (reachable g \<longrightarrow> is_edge g x v = False \<and> weight g x v = 0)"
proof -
  have first: "degree_out g v = Inl OutOfRange \<and> degree g v = Inl OutOfRange
    \<and> is_edge g v x = False \<and> weight g v x = 0 \<and> neighbors g v = []"
    using assms
    by (simp add: degree_def degree_out_def map_at_def is_vertex_def is_edge_def
        weight_def neighbors_def)
  have second: "is_edge g x v = False \<and> weight g x v = 0" if r: "reachable g"
  proof -
    have "adjm g x v = adjm g v x" using reachable_symmetric [OF r] by (rule symmetricD)
    also have "\<dots> = None" using assms by (simp add: adjm_def is_vertex_def)
    finally show ?thesis by (simp add: is_edge_adjm weight_adjm)
  qed
  from first second show ?thesis by blast
qed

theorem absent_vertex_queries_witness:
  "\<not> is_vertex sample_g3 9 \<and> reachable sample_g3 \<and> degree_out sample_g3 9 = Inl OutOfRange
   \<and> degree sample_g3 9 = Inl OutOfRange \<and> is_edge sample_g3 9 1 = False
   \<and> weight sample_g3 9 1 = 0 \<and> neighbors sample_g3 9 = []
   \<and> is_edge sample_g3 1 9 = False \<and> weight sample_g3 1 9 = 0"
proof -
  have h: "\<not> is_vertex sample_g3 9" by code_simp
  have r: "reachable sample_g3" by (simp add: sample_g3_def reachable_build)
  show ?thesis using h r absent_vertex_queries [OF h, of 1] by simp
qed

section \<open>A neighbour labelled 0 can keep the walk from ending\<close>

text \<open>
  On the single edge between -1 and 0 the walk starts at -1, skips the neighbour 0,
  falls back to the start vertex, removes the edge from -1 to -1, which does not exist,
  and is back where it was with a longer trail: \<open>find_path\<close> does not return.
\<close>

lemma zero_edge_step:
  "degree zero_edge (-1) = Inr 1 \<and> neighbors zero_edge (-1) = [0]
   \<and> Graph_remove_edge zero_edge (-1) (-1) = zero_edge"
  by code_simp

lemma zero_edge_next: "hd p = -1 \<Longrightarrow> last p = -1 \<Longrightarrow> next_vertex zero_edge p = -1"
  by (simp add: next_vertex_def find_neighbor_def zero_edge_step)

lemma extend_path_stuck:
  assumes "extend_path s g p = Some r"
  shows "stuck s g p r"
proof (rule extend_path.raw_induct [where P = stuck, OF _ assms])
  fix f s g p r
  assume IH: "\<And>s g p r. f s g p = Some r \<Longrightarrow> stuck s g p r"
  assume eq: "(if \<not> g < length s \<or> p = [] then Some (Inl UndefinedBehaviour)
      else case degree (s ! g) (last p) of
             Inl e \<Rightarrow> Some (Inl e)
           | Inr d \<Rightarrow>
               if d = 0 then Some (Inr (s, p))
               else let v_next = next_vertex (s ! g) p
                    in f (s[g := Graph_remove_edge (s ! g) (last p) v_next]) g
                         (p @ [v_next])) = Some r"
  show "stuck s g p r"
    unfolding stuck_def
  proof
    assume a: "g < length s \<and> s ! g = zero_edge \<and> p \<noteq> [] \<and> hd p = -1 \<and> last p = -1"
    then have nv: "next_vertex zero_edge p = -1" by (simp add: zero_edge_next)
    from eq a nv have "f (s[g := zero_edge]) g (p @ [-1]) = Some r"
      by (simp add: zero_edge_step)
    then have "stuck (s[g := zero_edge]) g (p @ [-1]) r" by (rule IH)
    with a show False by (simp add: stuck_def)
  qed
qed

lemma find_path_diverges:
  "vertices zero_edge = [-1, 0] \<and> odd_vertices zero_edge = [-1, 0]
   \<and> find_path [zero_edge] 0 = None"
proof -
  have o: "odd_vertices zero_edge = [-1, 0]" by code_simp
  have v: "vertices zero_edge = [-1, 0]" by code_simp
  have f: "first_nonzero [-1, 0] = -1" by (simp add: first_nonzero_Cons)
  have n: "extend_path ([zero_edge] @ [[zero_edge] ! 0]) (length [zero_edge]) [-1] = None"
  proof (cases "extend_path ([zero_edge] @ [[zero_edge] ! 0]) (length [zero_edge]) [-1]")
    case None
    then show ?thesis .
  next
    case (Some r)
    then have "stuck ([zero_edge] @ [[zero_edge] ! 0]) (length [zero_edge]) [-1] r"
      by (rule extend_path_stuck)
    then show ?thesis by (simp add: stuck_def)
  qed
  have z: "[zero_edge] ! 0 = zero_edge" by simp
  have n': "extend_path ([zero_edge] @ [zero_edge]) (length [zero_edge]) [-1] = None"
    using n by (simp only: z)
  have "find_path [zero_edge] 0 = None"
  proof (subst find_path_walk)
    show "0 < length [zero_edge]" by simp
    show "length (odd_vertices ([zero_edge] ! 0)) = 0 \<or> length (odd_vertices ([zero_edge] ! 0)) = 2"
      by (simp add: o)
    show "\<not> (first_nonzero (odd_vertices ([zero_edge] ! 0)) = 0 \<and> vertices ([zero_edge] ! 0) = [])"
      by (simp add: v)
    show "(case extend_path ([zero_edge] @ [[zero_edge] ! 0]) (length [zero_edge])
            [if first_nonzero (odd_vertices ([zero_edge] ! 0)) \<noteq> 0
             then first_nonzero (odd_vertices ([zero_edge] ! 0))
             else hd (vertices ([zero_edge] ! 0))] of
      None \<Rightarrow> None | Some (Inl e) \<Rightarrow> Some (Inl e)
      | Some (Inr (s', p')) \<Rightarrow> Some (Inr (butlast s', p'))) = None"
      unfolding z o f using n' by simp
  qed
  with o v show ?thesis by simp
qed

section \<open>Neighbour order and the vertex appended by a step\<close>

lemma set_map_set: "set (map_set k v m) \<subseteq> insert (k, v) (set m)"
  by (induction m) (auto split: if_splits)

lemma inner_sorted_map_set:
  "inner_sorted g \<Longrightarrow> sorted_wrt (<) (map fst m) \<Longrightarrow> inner_sorted (map_set k m g)"
  unfolding inner_sorted_def using set_map_set [of k m g] by auto

lemma inner_sorted_lookup:
  "inner_sorted g \<Longrightarrow> map_of g k = Some m \<Longrightarrow> sorted_wrt (<) (map fst m)"
  unfolding inner_sorted_def by (drule map_of_SomeD) auto

lemma inner_sorted_map_subscript:
  assumes g: "inner_sorted g"
    and f: "\<And>m. sorted_wrt (<) (map fst m) \<Longrightarrow> sorted_wrt (<) (map fst (f m))"
  shows "inner_sorted (map_subscript k [] f g)"
proof -
  have "sorted_wrt (<) (map fst (case map_of g k of None \<Rightarrow> [] | Some m \<Rightarrow> m))"
  proof (cases "map_of g k")
    case None
    then show ?thesis by simp
  next
    case (Some m)
    with g show ?thesis by (simp add: inner_sorted_lookup)
  qed
  then have "sorted_wrt (<) (map fst (f (case map_of g k of None \<Rightarrow> [] | Some m \<Rightarrow> m)))"
    by (rule f)
  with g show ?thesis unfolding map_subscript_def by (rule inner_sorted_map_set)
qed

lemma inner_sorted_add_vertex: "inner_sorted g \<Longrightarrow> inner_sorted (add_vertex g v)"
  unfolding add_vertex_def by (rule inner_sorted_map_subscript) simp_all

lemma inner_sorted_DiGraph_update_edge:
  "inner_sorted g \<Longrightarrow> inner_sorted (DiGraph_update_edge g v1 v2 w)"
  unfolding DiGraph_update_edge_def
  by (rule inner_sorted_map_subscript) (simp_all add: inner_sorted_add_vertex sorted_map_set)

lemma inner_sorted_DiGraph_add_edge:
  "inner_sorted g \<Longrightarrow> inner_sorted (DiGraph_add_edge g v1 v2 w)"
  by (simp add: DiGraph_add_edge_def inner_sorted_DiGraph_update_edge)

lemma inner_sorted_DiGraph_remove_edge:
  "inner_sorted g \<Longrightarrow> inner_sorted (DiGraph_remove_edge g v1 v2)"
  unfolding DiGraph_remove_edge_def
  by (rule inner_sorted_map_subscript) (simp_all add: sorted_map_erase)

lemma inner_sorted_remove: "inner_sorted g \<Longrightarrow> inner_sorted (remove g v)"
  by (auto simp: inner_sorted_def remove_def map_erase_def sorted_wrt_map sorted_wrt_filter)

lemma reachable_inner_sorted: "reachable g \<Longrightarrow> inner_sorted g"
proof (induction rule: reachable.induct)
  case empty
  show ?case by (simp add: inner_sorted_def)
next
  case (add_vertex g v)
  from add_vertex.IH show ?case by (rule inner_sorted_add_vertex)
next
  case (add_edge g v1 v2 w)
  from add_edge.IH show ?case by (simp add: Graph_add_edge_def inner_sorted_DiGraph_add_edge)
next
  case (update_edge g v1 v2 w)
  from update_edge.IH show ?case by (simp add: Graph_update_edge_def inner_sorted_DiGraph_update_edge)
next
  case (remove_edge g v1 v2)
  from remove_edge.IH show ?case by (simp add: Graph_remove_edge_def inner_sorted_DiGraph_remove_edge)
next
  case (remove g v)
  from remove.IH show ?case by (rule inner_sorted_remove)
qed

text \<open>
  In a graph built by the operations, \<open>neighbors\<close> lists the neighbours of a vertex
  in strictly ascending order.
\<close>

lemma neighbors_sorted:
  assumes "reachable g"
  shows "sorted_wrt (<) (neighbors g u)"
proof (cases "map_of g u")
  case None
  then show ?thesis by (simp add: neighbors_def is_vertex_def)
next
  case (Some m)
  from reachable_inner_sorted [OF assms] Some have "sorted_wrt (<) (map fst m)"
    by (rule inner_sorted_lookup)
  with Some show ?thesis by (simp add: neighbors_def is_vertex_def)
qed

text \<open>The first entry of an ascending list that satisfies a test is the least such entry.\<close>

lemma first_filter_least:
  fixes xs :: "'a::linorder list"
  assumes "sorted_wrt (<) xs" and "filter P xs = x # ys"
  shows "x \<in> set xs \<and> P x \<and> (\<forall>y \<in> set xs. P y \<longrightarrow> x \<le> y)"
proof -
  from assms(1) have "sorted_wrt (<) (filter P xs)" by (rule sorted_wrt_filter)
  with assms(2) have le: "\<forall>y \<in> set ys. x < y" by simp
  have mem: "x \<in> set (filter P xs)" using assms(2) by simp
  have "\<forall>y \<in> set xs. P y \<longrightarrow> x \<le> y"
  proof (intro ballI impI)
    fix y assume "y \<in> set xs" and "P y"
    then have "y \<in> set (filter P xs)" by simp
    with assms(2) have "y = x \<or> y \<in> set ys" by simp
    with le show "x \<le> y" by auto
  qed
  with mem show ?thesis by simp
qed

lemma spec_next_vertex_least:
  assumes "reachable g" and "spec_next_vertex g p \<noteq> hd p"
  shows "spec_next_vertex g p \<in> set (neighbors g (last p))
    \<and> (\<forall>v \<in> set (neighbors g (last p)). v \<noteq> hd p \<longrightarrow> spec_next_vertex g p \<le> v)"
proof (cases "filter (\<lambda>v. v \<noteq> hd p) (neighbors g (last p))")
  case Nil
  with assms(2) show ?thesis by (simp add: spec_next_vertex_def)
next
  case (Cons x ys)
  have s: "spec_next_vertex g p = x" using Cons by (simp add: spec_next_vertex_def)
  from first_filter_least [OF neighbors_sorted [OF assms(1)] Cons]
  show ?thesis unfolding s by simp
qed

text \<open>
  Claim C3, as amended.  At every step of the walk on a graph built by the undirected
  operations (each step leaves such a graph again), when the last vertex \<open>u\<close> of the
  trail has nonzero degree, the remaining neighbours of \<open>u\<close> are listed in ascending
  order and the vertex that \<open>extend_path\<close> appends is the first, that is the least,
  of them that is not the start vertex, and the start vertex only when it is the sole
  remaining neighbour, provided the neighbour that rule selects is not labelled 0
  (unless 0 is the start vertex itself).
\<close>

theorem extend_path_step:
  assumes "g < length s" and "p \<noteq> []" and "reachable (s ! g)"
    and "degree (s ! g) (last p) = Inr d" and "d \<noteq> 0"
    and "spec_next_vertex (s ! g) p = 0 \<longrightarrow> hd p = 0"
  shows "next_vertex (s ! g) p = spec_next_vertex (s ! g) p
    \<and> extend_path s g p =
        extend_path (s[g := Graph_remove_edge (s ! g) (last p) (spec_next_vertex (s ! g) p)]) g
          (p @ [spec_next_vertex (s ! g) p])
    \<and> reachable (Graph_remove_edge (s ! g) (last p) (spec_next_vertex (s ! g) p))
    \<and> sorted_wrt (<) (neighbors (s ! g) (last p))
    \<and> (spec_next_vertex (s ! g) p \<noteq> hd p \<longrightarrow>
          spec_next_vertex (s ! g) p \<in> set (neighbors (s ! g) (last p))
          \<and> (\<forall>v \<in> set (neighbors (s ! g) (last p)).
                v \<noteq> hd p \<longrightarrow> spec_next_vertex (s ! g) p \<le> v))
    \<and> (spec_next_vertex (s ! g) p = hd p \<longrightarrow> set (neighbors (s ! g) (last p)) = {hd p})"
proof -
  have nv: "next_vertex (s ! g) p = spec_next_vertex (s ! g) p"
    using assms(6) by (rule next_vertex_spec)
  have step: "extend_path s g p =
      extend_path (s[g := Graph_remove_edge (s ! g) (last p) (next_vertex (s ! g) p)]) g
        (p @ [next_vertex (s ! g) p])"
    using assms(1,2,4,5) by (subst extend_path.simps) (simp add: Let_def)
  have r: "reachable (Graph_remove_edge (s ! g) (last p) (spec_next_vertex (s ! g) p))"
    using assms(3) by (rule reachable.remove_edge)
  have so: "sorted_wrt (<) (neighbors (s ! g) (last p))"
    using assms(3) by (rule neighbors_sorted)
  have least: "spec_next_vertex (s ! g) p \<noteq> hd p \<longrightarrow>
          spec_next_vertex (s ! g) p \<in> set (neighbors (s ! g) (last p))
          \<and> (\<forall>v \<in> set (neighbors (s ! g) (last p)).
                v \<noteq> hd p \<longrightarrow> spec_next_vertex (s ! g) p \<le> v)"
    using spec_next_vertex_least [OF assms(3)] by blast
  have sole: "spec_next_vertex (s ! g) p = hd p \<longrightarrow> set (neighbors (s ! g) (last p)) = {hd p}"
    using spec_next_vertex_start [OF assms(4,5)] by blast
  from nv step r so least sole show ?thesis by simp
qed

theorem extend_path_step_witness:
  "(0::nat) < length [sample_g1] \<and> [1::int] \<noteq> [] \<and> reachable ([sample_g1] ! 0)
   \<and> degree ([sample_g1] ! 0) (last [1]) = Inr 4
   \<and> neighbors ([sample_g1] ! 0) (last [1]) = [2,3,4,5]
   \<and> spec_next_vertex ([sample_g1] ! 0) [1] = 2
   \<and> next_vertex ([sample_g1] ! 0) [1] = 2
   \<and> extend_path [sample_g1] 0 [1] =
        extend_path ([sample_g1][0 := Graph_remove_edge ([sample_g1] ! 0) (last [1]) 2]) 0 ([1] @ [2])"
proof -
  have r: "reachable ([sample_g1] ! 0)" by (simp add: sample_g1_def reachable_build)
  have d: "degree ([sample_g1] ! 0) (last [1]) = Inr 4" by code_simp
  have n: "spec_next_vertex ([sample_g1] ! 0) [1] = 2" by code_simp
  have ns: "neighbors ([sample_g1] ! 0) (last [1]) = [2,3,4,5]" by code_simp
  show ?thesis
    using extend_path_step [of 0 "[sample_g1]" "[1]" 4] r d n ns by simp
qed

text \<open>
  Claim C3 as stated fails for a neighbour labelled 0: on the triangle -1, 0, 1 with
  the trail \<open>[-1]\<close> the remaining neighbours of -1 are 0 and 1, the first that is
  not the start is 0, and the code appends 1.
\<close>

theorem next_vertex_skips_zero:
  "reachable zero_triangle
   \<and> degree zero_triangle (last [-1]) = Inr 2 \<and> neighbors zero_triangle (last [-1]) = [0, 1]
   \<and> hd [-1 :: int] = -1 \<and> spec_next_vertex zero_triangle [-1] = 0
   \<and> next_vertex zero_triangle [-1] = 1
   \<and> next_vertex zero_triangle [-1] \<noteq> spec_next_vertex zero_triangle [-1]"
proof -
  have r: "reachable zero_triangle" by (simp add: zero_triangle_def reachable_build)
  have e: "degree zero_triangle (last [-1]) = Inr 2 \<and> neighbors zero_triangle (last [-1]) = [0, 1]
   \<and> hd [-1 :: int] = -1 \<and> spec_next_vertex zero_triangle [-1] = 0
   \<and> next_vertex zero_triangle [-1] = 1
   \<and> next_vertex zero_triangle [-1] \<noteq> spec_next_vertex zero_triangle [-1]"
    by code_simp
  from r e show ?thesis by simp
qed

section \<open>The walk ends when 0 is nobody's neighbour or is the start\<close>

lemma next_vertex_neighbor:
  assumes nz: "no_zero h \<or> hd p = 0" and d: "degree h (last p) = Inr d" and d0: "d \<noteq> 0"
  shows "adjm h (last p) (next_vertex h p) \<noteq> None"
proof -
  have mem: "spec_next_vertex h p \<in> set (neighbors h (last p))"
    using spec_next_vertex_cases [of p h]
  proof
    assume "filter (\<lambda>v. v \<noteq> hd p) (neighbors h (last p)) = [] \<and> spec_next_vertex h p = hd p"
    then have e: "spec_next_vertex h p = hd p" ..
    from spec_next_vertex_start [OF d d0 e] e show ?thesis by simp
  next
    assume "spec_next_vertex h p \<in> set (neighbors h (last p)) \<and> spec_next_vertex h p \<noteq> hd p"
    then show ?thesis ..
  qed
  have "spec_next_vertex h p = 0 \<longrightarrow> hd p = 0"
    using nz
  proof
    assume "no_zero h"
    then have "0 \<notin> set (neighbors h (last p))"
      by (simp add: mem_neighbors is_edge_adjm no_zero_def)
    with mem have "spec_next_vertex h p \<noteq> 0" by auto
    then show ?thesis by simp
  next
    assume "hd p = 0"
    then show ?thesis by simp
  qed
  then have "next_vertex h p = spec_next_vertex h p" by (rule next_vertex_spec)
  with mem show ?thesis by (simp add: mem_neighbors is_edge_adjm)
qed

text \<open>
  When 0 is nobody's neighbour, or the walk started at 0, every step removes an edge of
  the working graph, so the walk ends.
\<close>

lemma extend_path_terminates:
  assumes "g < length s" and "p \<noteq> []" and "no_zero (s ! g) \<or> hd p = 0"
    and "is_vertex (s ! g) (last p)"
  shows "\<exists>s' p'. extend_path s g p = Some (Inr (s', p'))"
  using assms
proof (induction "card (edge_set (s ! g))" arbitrary: s p rule: less_induct)
  case less
  from less.prems(4) have "\<exists>d. degree (s ! g) (last p) = Inr d" by (rule degree_vertex)
  then obtain d where d: "degree (s ! g) (last p) = Inr d" ..
  show ?case
  proof (cases "d = 0")
    case True
    with less.prems(1,2) d have "extend_path s g p = Some (Inr (s, p))"
      by (subst extend_path.simps) simp
    then show ?thesis by blast
  next
    case False
    let ?v = "next_vertex (s ! g) p"
    let ?h = "Graph_remove_edge (s ! g) (last p) ?v"
    let ?s = "s[g := ?h]"
    have sg: "?s ! g = ?h" using less.prems(1) by simp
    have e: "adjm (s ! g) (last p) ?v \<noteq> None"
      using less.prems(3) d False by (rule next_vertex_neighbor)
    have c: "card (edge_set (?s ! g)) < card (edge_set (s ! g))"
      unfolding sg using e by (rule card_edge_set_remove)
    have len: "g < length ?s" using less.prems(1) by simp
    have ne: "p @ [?v] \<noteq> []" by simp
    have nz: "no_zero (?s ! g) \<or> hd (p @ [?v]) = 0"
      unfolding sg using less.prems(2,3) by (auto simp: no_zero_remove_edge)
    have iv: "is_vertex (?s ! g) (last (p @ [?v]))"
      unfolding sg by (simp add: is_vertex_Graph_remove_edge)
    have "\<exists>s' p'. extend_path ?s g (p @ [?v]) = Some (Inr (s', p'))"
      using c len ne nz iv by (rule less.hyps)
    moreover have "extend_path s g p = extend_path ?s g (p @ [?v])"
      using less.prems(1,2) d False by (subst extend_path.simps) (simp add: Let_def)
    ultimately show ?thesis by simp
  qed
qed

text \<open>A walk that stands on a vertex of its graph does not throw.\<close>

lemma extend_path_ok:
  assumes "extend_path s g p = Some r"
  shows "walk_ok s g p r"
proof (rule extend_path.raw_induct [where P = walk_ok, OF _ assms])
  fix f s g p r
  assume IH: "\<And>s g p r. f s g p = Some r \<Longrightarrow> walk_ok s g p r"
  assume eq: "(if \<not> g < length s \<or> p = [] then Some (Inl UndefinedBehaviour)
      else case degree (s ! g) (last p) of
             Inl e \<Rightarrow> Some (Inl e)
           | Inr d \<Rightarrow>
               if d = 0 then Some (Inr (s, p))
               else let v_next = next_vertex (s ! g) p
                    in f (s[g := Graph_remove_edge (s ! g) (last p) v_next]) g
                         (p @ [v_next])) = Some r"
  show "walk_ok s g p r"
    unfolding walk_ok_def
  proof
    assume a: "g < length s \<and> p \<noteq> [] \<and> is_vertex (s ! g) (last p)"
    then have g: "g < length s" and p: "p \<noteq> []" and v: "is_vertex (s ! g) (last p)"
      by simp_all
    from v have "\<exists>d. degree (s ! g) (last p) = Inr d" by (rule degree_vertex)
    then obtain d where d: "degree (s ! g) (last p) = Inr d" ..
    show "\<exists>sp. r = Inr sp"
    proof (cases "d = 0")
      case True
      with eq g p d have "r = Inr (s, p)" by auto
      then show ?thesis by blast
    next
      case False
      let ?v = "next_vertex (s ! g) p"
      let ?h = "Graph_remove_edge (s ! g) (last p) ?v"
      from eq g p d False have "f (s[g := ?h]) g (p @ [?v]) = Some r"
        by (simp add: Let_def)
      then have "walk_ok (s[g := ?h]) g (p @ [?v]) r" by (rule IH)
      moreover have "g < length (s[g := ?h])" using g by simp
      moreover have "is_vertex (s[g := ?h] ! g) (last (p @ [?v]))"
        using g by (simp add: is_vertex_Graph_remove_edge)
      ultimately show ?thesis unfolding walk_ok_def by simp
    qed
  qed
qed

lemma reachable_no_zero:
  assumes "reachable g" and "neighbors g 0 = []"
  shows "no_zero g"
  unfolding no_zero_def
proof
  fix u
  have "adjm g u 0 = adjm g 0 u"
    using reachable_symmetric [OF assms(1)] by (rule symmetricD)
  also have "\<dots> = None"
  proof (rule ccontr)
    assume "adjm g 0 u \<noteq> None"
    then have "u \<in> set (neighbors g 0)" by (simp add: mem_neighbors is_edge_adjm)
    with assms(2) show False by simp
  qed
  finally show "adjm g u 0 = None" .
qed

lemma start_vertex:
  assumes z: "odd_vertices g = [] \<or> hd (odd_vertices g) \<noteq> 0" and v: "vertices g \<noteq> []"
  defines "x \<equiv> (if first_nonzero (odd_vertices g) \<noteq> 0 then first_nonzero (odd_vertices g)
               else hd (vertices g))"
  shows "x = (if odd_vertices g = [] then hd (vertices g) else hd (odd_vertices g))"
    and "is_vertex g x"
proof -
  have sub: "set (odd_vertices g) \<subseteq> set (vertices g)" by (auto simp: odd_vertices_def)
  show x: "x = (if odd_vertices g = [] then hd (vertices g) else hd (odd_vertices g))"
  proof (cases "odd_vertices g")
    case Nil
    then show ?thesis by (simp add: x_def first_nonzero_Nil)
  next
    case (Cons y ys)
    with z have "y \<noteq> 0" by auto
    with Cons show ?thesis by (simp add: x_def first_nonzero_Cons)
  qed
  have "x \<in> set (vertices g)"
  proof (cases "odd_vertices g")
    case Nil
    with x v show ?thesis by simp
  next
    case (Cons y ys)
    then have "y \<in> set (odd_vertices g)" by simp
    with sub Cons x show ?thesis by auto
  qed
  then show "is_vertex g x" by (simp add: mem_vertices)
qed

section \<open>The start vertex\<close>

text \<open>
  Claim C2, as amended.  For every undirected graph with at least one vertex whose
  number of odd-degree vertices is 0 or 2 and whose first odd-degree vertex, if there is
  one, is not labelled 0: every run of \<open>find_path\<close> that returns, returns a trail
  whose first vertex is the first vertex of the ascending vertex order when there is no
  odd-degree vertex, and the first odd-degree vertex of that order when there are two;
  and \<open>find_path\<close> does return a trail when no edge is incident to a vertex
  labelled 0, or when the start vertex is itself 0.
\<close>

theorem find_path_start:
  assumes g: "g < length s" and r: "reachable (s ! g)"
    and v: "vertices (s ! g) \<noteq> []"
    and c: "length (odd_vertices (s ! g)) = 0 \<or> length (odd_vertices (s ! g)) = 2"
    and z: "odd_vertices (s ! g) = [] \<or> hd (odd_vertices (s ! g)) \<noteq> 0"
  shows "(\<forall>res. find_path s g = Some res \<longrightarrow>
            (\<exists>s' p. res = Inr (s', p) \<and> p \<noteq> []
               \<and> hd p = (if odd_vertices (s ! g) = [] then hd (vertices (s ! g))
                         else hd (odd_vertices (s ! g)))))
    \<and> (neighbors (s ! g) 0 = []
        \<or> (if odd_vertices (s ! g) = [] then hd (vertices (s ! g))
            else hd (odd_vertices (s ! g))) = 0
        \<longrightarrow> (\<exists>s' p. find_path s g = Some (Inr (s', p))))
    \<and> sorted_wrt (<) (vertices (s ! g))"
proof -
  define x where "x = (if first_nonzero (odd_vertices (s ! g)) \<noteq> 0
      then first_nonzero (odd_vertices (s ! g)) else hd (vertices (s ! g)))"
  have x: "x = (if odd_vertices (s ! g) = [] then hd (vertices (s ! g))
                else hd (odd_vertices (s ! g)))"
    unfolding x_def using z v by (rule start_vertex(1))
  have xv: "is_vertex (s ! g) x" unfolding x_def using z v by (rule start_vertex(2))
  have nv: "\<not> (first_nonzero (odd_vertices (s ! g)) = 0 \<and> vertices (s ! g) = [])"
    using v by simp
  note walk = find_path_walk [OF g c nv, folded x_def]
  have copy: "(s @ [s ! g]) ! length s = s ! g" by simp
  have len: "length s < length (s @ [s ! g])" by simp
  have xv': "is_vertex ((s @ [s ! g]) ! length s) (last [x])" unfolding copy using xv by simp
  have part: "\<forall>res. find_path s g = Some res \<longrightarrow>
            (\<exists>s' p. res = Inr (s', p) \<and> p \<noteq> [] \<and> hd p = x)"
  proof (intro allI impI)
    fix res assume fp: "find_path s g = Some res"
    show "\<exists>s' p. res = Inr (s', p) \<and> p \<noteq> [] \<and> hd p = x"
    proof (cases "extend_path (s @ [s ! g]) (length s) [x]")
      case None
      with fp show ?thesis unfolding walk by simp
    next
      case (Some r)
      from extend_path_ok [OF Some] len xv' obtain sp where sp: "r = Inr sp"
        unfolding walk_ok_def by auto
      obtain s2 p where s2: "sp = (s2, p)" by (cases sp)
      from extend_path_post [OF Some] sp s2 have p: "p \<noteq> []" "hd p = x"
        by (simp_all add: extend_post_def)
      from fp Some sp s2 have "res = Inr (butlast s2, p)" unfolding walk by simp
      with p show ?thesis by blast
    qed
  qed
  have tot: "neighbors (s ! g) 0 = [] \<or> x = 0 \<longrightarrow> (\<exists>s' p. find_path s g = Some (Inr (s', p)))"
  proof
    assume a: "neighbors (s ! g) 0 = [] \<or> x = 0"
    have nz: "no_zero ((s @ [s ! g]) ! length s) \<or> hd [x] = 0"
      unfolding copy using a r by (auto simp: reachable_no_zero)
    have "[x] \<noteq> []" by simp
    with len have "\<exists>s' p'. extend_path (s @ [s ! g]) (length s) [x] = Some (Inr (s', p'))"
      using nz xv' by (rule extend_path_terminates)
    then obtain s2 p where "extend_path (s @ [s ! g]) (length s) [x] = Some (Inr (s2, p))"
      by blast
    then have "find_path s g = Some (Inr (butlast s2, p))" unfolding walk by simp
    then show "\<exists>s' p. find_path s g = Some (Inr (s', p))" by blast
  qed
  have so: "sorted_wrt (<) (vertices (s ! g))" using r by (rule reachable_sorted)
  from part tot so show ?thesis unfolding x by blast
qed

theorem find_path_start_witness:
  "(0::nat) < length [zero_start_triangle] \<and> reachable ([zero_start_triangle] ! 0)
   \<and> vertices ([zero_start_triangle] ! 0) = [0,1,2]
   \<and> odd_vertices ([zero_start_triangle] ! 0) = []
   \<and> find_path [zero_start_triangle] 0 = Some (Inr ([zero_start_triangle], [0,1,2,0]))
   \<and> hd [0,1,2,0::int] = hd (vertices ([zero_start_triangle] ! 0))"
proof -
  have r: "reachable ([zero_start_triangle] ! 0)"
    by (simp add: zero_start_triangle_def reachable_build)
  have v: "vertices ([zero_start_triangle] ! 0) = [0,1,2]" by code_simp
  have o: "odd_vertices ([zero_start_triangle] ! 0) = []" by code_simp
  have f: "find_path [zero_start_triangle] 0 = Some (Inr ([zero_start_triangle], [0,1,2,0]))"
    by code_simp
  show ?thesis
    using find_path_start [of 0 "[zero_start_triangle]"] r v o f by simp
qed

text \<open>
  Claim C2 as stated fails for a vertex labelled 0.  On the path 1-2-3-0 the odd-degree
  vertices are 0 and 1, the first of them in vertex order is 0, and the returned trail
  starts at 1.  On the single edge between -1 and 0 the first odd-degree vertex is -1,
  but no trail is returned at all: the walk never ends.
\<close>

theorem find_path_start_zero:
  "reachable zero_path \<and> vertices zero_path = [0,1,2,3] \<and> odd_vertices zero_path = [0,1]
   \<and> find_path [zero_path] 0 = Some (Inr ([zero_path], [1,2,3,1]))
   \<and> hd [1,2,3,1::int] \<noteq> hd (odd_vertices zero_path)
   \<and> reachable zero_edge \<and> vertices zero_edge = [-1, 0] \<and> odd_vertices zero_edge = [-1, 0]
   \<and> find_path [zero_edge] 0 = None"
proof -
  have r: "reachable zero_path" by (simp add: zero_path_def reachable_build)
  have e: "vertices zero_path = [0,1,2,3] \<and> odd_vertices zero_path = [0,1]
   \<and> find_path [zero_path] 0 = Some (Inr ([zero_path], [1,2,3,1]))
   \<and> hd [1,2,3,1::int] \<noteq> hd (odd_vertices zero_path)" by code_simp
  have r': "reachable zero_edge" by (simp add: zero_edge_def reachable_build)
  from r e r' find_path_diverges show ?thesis by simp
qed


section \<open>What the walk reads of a graph is its shape\<close>

lemma map_of_shape: "map_of (shape h) u = map_option (map fst) (map_of h u)"
  unfolding shape_def by (rule map_of_map_values)

lemma vertices_shape: "vertices h = map fst (shape h)"
  by (simp add: vertices_def shape_def)

lemma neighbors_shape:
  "neighbors h u = (case map_of (shape h) u of None \<Rightarrow> [] | Some ks \<Rightarrow> ks)"
  by (cases "map_of h u") (simp_all add: map_of_shape neighbors_def is_vertex_def)

lemma degree_shape:
  "degree h u = (case map_of (shape h) u of None \<Rightarrow> Inl OutOfRange | Some ks \<Rightarrow> Inr (length ks))"
  by (cases "map_of h u") (simp_all add: map_of_shape degree_def degree_out_def map_at_def)

lemma is_vertex_shape: "is_vertex h u = (map_of (shape h) u \<noteq> None)"
  by (simp add: map_of_shape is_vertex_def)

lemma shape_map_set: "shape (map_set k m h) = map_set k (map fst m) (shape h)"
  by (induction h) (auto simp: shape_def)

lemma keys_map_erase: "map fst (map_erase v m) = filter (\<lambda>k. k \<noteq> v) (map fst m)"
  by (induction m) (auto simp: map_erase_def)

lemma shape_DiGraph_remove_edge:
  "shape (DiGraph_remove_edge h u v) =
     map_set u (filter (\<lambda>k. k \<noteq> v) (case map_of (shape h) u of None \<Rightarrow> [] | Some ks \<Rightarrow> ks))
       (shape h)"
  by (cases "map_of h u")
    (simp_all add: DiGraph_remove_edge_def map_subscript_def shape_map_set keys_map_erase
      map_of_shape)

lemma shape_Graph_remove_edge:
  assumes "shape h1 = shape h2"
  shows "shape (Graph_remove_edge h1 u v) = shape (Graph_remove_edge h2 u v)"
proof -
  have "shape (DiGraph_remove_edge h1 u v) = shape (DiGraph_remove_edge h2 u v)"
    by (simp only: shape_DiGraph_remove_edge assms)
  then show ?thesis
    unfolding Graph_remove_edge_def by (simp only: shape_DiGraph_remove_edge)
qed

lemma shape_degree: "shape h1 = shape h2 \<Longrightarrow> degree h1 u = degree h2 u"
  by (simp add: degree_shape)

lemma shape_neighbors: "shape h1 = shape h2 \<Longrightarrow> neighbors h1 u = neighbors h2 u"
  by (simp add: neighbors_shape)

lemma shape_next_vertex: "shape h1 = shape h2 \<Longrightarrow> next_vertex h1 p = next_vertex h2 p"
  by (simp add: next_vertex_def shape_neighbors [of h1 h2])

lemma shape_vertices: "shape h1 = shape h2 \<Longrightarrow> vertices h1 = vertices h2"
  by (simp add: vertices_shape)

lemma shape_odd_vertices: "shape h1 = shape h2 \<Longrightarrow> odd_vertices h1 = odd_vertices h2"
proof -
  assume s: "shape h1 = shape h2"
  have "odd_degree h1 = odd_degree h2"
    by (rule ext) (simp add: odd_degree_def shape_degree [OF s])
  then show ?thesis by (simp add: odd_vertices_def shape_vertices [OF s])
qed

section \<open>Two walks on graphs of the same shape\<close>

lemma extend_path_sim:
  assumes "extend_path s1 g1 p = Some r1"
  shows "walk_sim s1 g1 p r1"
proof (rule extend_path.raw_induct [where P = walk_sim, OF _ assms])
  fix f s g p r
  assume IH: "\<And>s g p r. f s g p = Some r \<Longrightarrow> walk_sim s g p r"
  assume eq: "(if \<not> g < length s \<or> p = [] then Some (Inl UndefinedBehaviour)
      else case degree (s ! g) (last p) of
             Inl e \<Rightarrow> Some (Inl e)
           | Inr d \<Rightarrow>
               if d = 0 then Some (Inr (s, p))
               else let v_next = next_vertex (s ! g) p
                    in f (s[g := Graph_remove_edge (s ! g) (last p) v_next]) g
                         (p @ [v_next])) = Some r"
  show "walk_sim s g p r"
    unfolding walk_sim_def
  proof (intro allI impI)
    fix s2 g2
    assume g: "g < length s" and g2: "g2 < length s2" and same: "shape (s ! g) = shape (s2 ! g2)"
    note deg = shape_degree [OF same, of "last p"]
    note nxt = shape_next_vertex [OF same, of p]
    show "\<exists>r2. extend_path s2 g2 p = Some r2 \<and> walk_result g r = walk_result g2 r2"
    proof (cases "p = []")
      case True
      with eq have "r = Inl UndefinedBehaviour" by auto
      moreover from True have "extend_path s2 g2 p = Some (Inl UndefinedBehaviour)"
        by (subst extend_path.simps) simp
      ultimately show ?thesis by (simp add: walk_result_def)
    next
      case p: False
      show ?thesis
      proof (cases "degree (s ! g) (last p)")
        case (Inl e)
        with eq g p have "r = Inl e" by auto
        moreover from Inl g2 p deg have "extend_path s2 g2 p = Some (Inl e)"
          by (subst extend_path.simps) simp
        ultimately show ?thesis by (simp add: walk_result_def)
      next
        case (Inr d)
        show ?thesis
        proof (cases "d = 0")
          case True
          with eq g p Inr have "r = Inr (s, p)" by auto
          moreover from True Inr g2 p deg have "extend_path s2 g2 p = Some (Inr (s2, p))"
            by (subst extend_path.simps) simp
          ultimately show ?thesis using same by (simp add: walk_result_def)
        next
          case False
          let ?v = "next_vertex (s ! g) p"
          let ?h = "Graph_remove_edge (s ! g) (last p) ?v"
          let ?h2 = "Graph_remove_edge (s2 ! g2) (last p) ?v"
          from eq g p Inr False have "f (s[g := ?h]) g (p @ [?v]) = Some r"
            by (simp add: Let_def)
          then have "walk_sim (s[g := ?h]) g (p @ [?v]) r" by (rule IH)
          moreover have "g < length (s[g := ?h])" using g by simp
          moreover have "g2 < length (s2[g2 := ?h2])" using g2 by simp
          moreover have "shape (s[g := ?h] ! g) = shape (s2[g2 := ?h2] ! g2)"
            using g g2 shape_Graph_remove_edge [OF same] by simp
          ultimately have "\<exists>r2. extend_path (s2[g2 := ?h2]) g2 (p @ [?v]) = Some r2
              \<and> walk_result g r = walk_result g2 r2"
            unfolding walk_sim_def by blast
          moreover have "extend_path s2 g2 p = extend_path (s2[g2 := ?h2]) g2 (p @ [?v])"
            using False Inr g2 p deg nxt by (subst extend_path.simps) (simp add: Let_def)
          ultimately show ?thesis by simp
        qed
      qed
    qed
  qed
qed

lemma extend_path_shape:
  assumes g1: "g1 < length s1" and g2: "g2 < length s2"
    and same: "shape (s1 ! g1) = shape (s2 ! g2)"
  shows "map_option (walk_result g1) (extend_path s1 g1 p) =
         map_option (walk_result g2) (extend_path s2 g2 p)"
proof (cases "extend_path s1 g1 p")
  case (Some r1)
  from extend_path_sim [OF Some] g1 g2 same
  obtain r2 where "extend_path s2 g2 p = Some r2" "walk_result g1 r1 = walk_result g2 r2"
    unfolding walk_sim_def by blast
  with Some show ?thesis by simp
next
  case None
  show ?thesis
  proof (cases "extend_path s2 g2 p")
    case n2: None
    with None show ?thesis by simp
  next
    case (Some r2)
    from extend_path_sim [OF Some] g2 g1 same [symmetric]
    obtain r1 where "extend_path s1 g1 p = Some r1"
      unfolding walk_sim_def by blast
    with None show ?thesis by simp
  qed
qed

lemma find_path_shape:
  assumes g1: "g1 < length s1" and g2: "g2 < length s2"
    and same: "shape (s1 ! g1) = shape (s2 ! g2)"
  shows "trail_of (find_path s1 g1) = trail_of (find_path s2 g2)"
proof -
  note o = shape_odd_vertices [OF same]
  note v = shape_vertices [OF same]
  show ?thesis
  proof (cases "length (odd_vertices (s1 ! g1)) = 0 \<or> length (odd_vertices (s1 ! g1)) = 2")
    case False
    then show ?thesis
      unfolding find_path_unfold [OF g1] find_path_unfold [OF g2, folded o v]
      by (simp add: trail_of_def)
  next
    case c: True
    show ?thesis
    proof (cases "first_nonzero (odd_vertices (s1 ! g1)) = 0 \<and> vertices (s1 ! g1) = []")
      case True
      with c show ?thesis
        unfolding find_path_unfold [OF g1] find_path_unfold [OF g2, folded o v]
        by (simp add: trail_of_def)
    next
      case False
      define x where "x = (if first_nonzero (odd_vertices (s1 ! g1)) \<noteq> 0
        then first_nonzero (odd_vertices (s1 ! g1)) else hd (vertices (s1 ! g1)))"
      have w: "map_option (walk_result (length s1)) (extend_path (s1 @ [s1 ! g1]) (length s1) [x]) =
               map_option (walk_result (length s2)) (extend_path (s2 @ [s2 ! g2]) (length s2) [x])"
        by (rule extend_path_shape) (simp_all add: same)
      have "trail_of (find_path s1 g1) =
            map_option (map_sum id snd)
              (map_option (walk_result (length s1)) (extend_path (s1 @ [s1 ! g1]) (length s1) [x]))"
        unfolding find_path_walk [OF g1 c False, folded x_def] by (rule trail_of_walk)
      moreover have "trail_of (find_path s2 g2) =
            map_option (map_sum id snd)
              (map_option (walk_result (length s2)) (extend_path (s2 @ [s2 ! g2]) (length s2) [x]))"
        unfolding find_path_walk [OF g2 c [unfolded o] False [unfolded o v], folded o v, folded x_def]
        by (rule trail_of_walk)
      ultimately show ?thesis using w by simp
    qed
  qed
qed


section \<open>Graphs with the same vertices and edges have the same shape\<close>

lemma strictly_sorted_unique:
  fixes xs ys :: "'a::linorder list"
  assumes "sorted_wrt (<) xs" and "sorted_wrt (<) ys" and "set xs = set ys"
  shows "xs = ys"
proof -
  from assms(1) have "sorted xs \<and> distinct xs" by (simp add: strict_sorted_iff)
  moreover from assms(2) have "sorted ys \<and> distinct ys" by (simp add: strict_sorted_iff)
  ultimately show ?thesis using assms(3) by (simp add: sorted_distinct_set_unique)
qed

lemma shape_by_queries:
  assumes "distinct (vertices h)"
  shows "shape h = map (\<lambda>u. (u, neighbors h u)) (vertices h)"
proof -
  have "\<forall>e \<in> set h. (fst e, map fst (snd e)) = (fst e, neighbors h (fst e))"
  proof
    fix e assume e: "e \<in> set h"
    obtain u m where um: "e = (u, m)" by (cases e)
    from assms have "distinct (map fst h)" by (simp add: vertices_def)
    with e um have "map_of h u = Some m" by (simp add: map_of_is_SomeI)
    with um show "(fst e, map fst (snd e)) = (fst e, neighbors h (fst e))"
      by (simp add: neighbors_def is_vertex_def)
  qed
  then show ?thesis by (simp add: shape_def vertices_def)
qed

lemma reachable_shape_unique:
  assumes r1: "reachable h1" and r2: "reachable h2"
    and v: "\<forall>u. is_vertex h1 u = is_vertex h2 u"
    and e: "\<forall>a b. is_edge h1 a b = is_edge h2 a b"
  shows "shape h1 = shape h2"
proof -
  have vs: "vertices h1 = vertices h2"
  proof (rule strictly_sorted_unique)
    show "sorted_wrt (<) (vertices h1)" using r1 by (rule reachable_sorted)
    show "sorted_wrt (<) (vertices h2)" using r2 by (rule reachable_sorted)
    show "set (vertices h1) = set (vertices h2)" using v by (auto simp: mem_vertices)
  qed
  have ns: "neighbors h1 u = neighbors h2 u" for u
  proof (rule strictly_sorted_unique)
    show "sorted_wrt (<) (neighbors h1 u)" using r1 by (rule neighbors_sorted)
    show "sorted_wrt (<) (neighbors h2 u)" using r2 by (rule neighbors_sorted)
    show "set (neighbors h1 u) = set (neighbors h2 u)" using e by (auto simp: mem_neighbors)
  qed
  have d1: "distinct (vertices h1)"
    using reachable_sorted [OF r1] by (simp add: strict_sorted_iff)
  have d2: "distinct (vertices h2)"
    using reachable_sorted [OF r2] by (simp add: strict_sorted_iff)
  show ?thesis
    unfolding shape_by_queries [OF d1] shape_by_queries [OF d2] by (simp add: vs ns)
qed

lemma shape_queries:
  assumes "shape h1 = shape h2"
  shows "(\<forall>u. is_vertex h1 u = is_vertex h2 u) \<and> (\<forall>a b. is_edge h1 a b = is_edge h2 a b)"
proof -
  have "is_edge h1 a b = is_edge h2 a b" for a b
    using shape_neighbors [OF assms, of a] mem_neighbors [of b h1 a] mem_neighbors [of b h2 a]
    by simp
  then show ?thesis by (simp add: is_vertex_shape assms)
qed

text \<open>
  Claim C10.  \<open>find_path\<close> is deterministic: on two graphs built by the undirected
  operations that have the same vertices and the same edges, however they were built,
  whatever their weights, wherever they are stored and whatever else the store holds,
  two invocations return the same vertices in the same order (or both fail in the same
  way, or both do not return).
\<close>

theorem find_path_deterministic:
  assumes g1: "g1 < length s1" and g2: "g2 < length s2"
    and r1: "reachable (s1 ! g1)" and r2: "reachable (s2 ! g2)"
    and v: "\<forall>u. is_vertex (s1 ! g1) u = is_vertex (s2 ! g2) u"
    and e: "\<forall>a b. is_edge (s1 ! g1) a b = is_edge (s2 ! g2) a b"
  shows "trail_of (find_path s1 g1) = trail_of (find_path s2 g2)"
proof -
  from r1 r2 v e have "shape (s1 ! g1) = shape (s2 ! g2)" by (rule reachable_shape_unique)
  with g1 g2 show ?thesis by (rule find_path_shape)
qed

lemma reachable_foldl_weight:
  "reachable g \<Longrightarrow> reachable (foldl (\<lambda>g e. Graph_add_edge g (fst e) (snd e) w) g es)"
  by (induction es arbitrary: g) (simp_all add: reachable.add_edge)

theorem find_path_deterministic_witness:
  "(0::nat) < length [sample_g2] \<and> (1::nat) < length [sample_g1, reweighted_g2]
   \<and> reachable ([sample_g2] ! 0) \<and> reachable ([sample_g1, reweighted_g2] ! 1)
   \<and> [sample_g2] ! 0 \<noteq> [sample_g1, reweighted_g2] ! 1
   \<and> vertices sample_g2 = vertices reweighted_g2
   \<and> trail_of (find_path [sample_g2] 0) = Some (Inr [2,1,4,5,3,2,4])
   \<and> trail_of (find_path [sample_g1, reweighted_g2] 1) = Some (Inr [2,1,4,5,3,2,4])"
proof -
  have r1: "reachable ([sample_g2] ! 0)" by (simp add: sample_g2_def reachable_build)
  have r2: "reachable ([sample_g1, reweighted_g2] ! 1)"
  proof -
    have "reachable reweighted_g2"
      unfolding reweighted_g2_def
      by (intro reachable.update_edge reachable_foldl_weight reachable.empty)
    then show ?thesis by simp
  qed
  have sh: "shape ([sample_g2] ! 0) = shape ([sample_g1, reweighted_g2] ! 1)" by code_simp
  have ne: "[sample_g2] ! 0 \<noteq> [sample_g1, reweighted_g2] ! 1" by code_simp
  have vs: "vertices sample_g2 = vertices reweighted_g2" by code_simp
  have t: "trail_of (find_path [sample_g2] 0) = Some (Inr [2,1,4,5,3,2,4])" by code_simp
  note q = shape_queries [OF sh]
  have "trail_of (find_path [sample_g2] 0) = trail_of (find_path [sample_g1, reweighted_g2] 1)"
    by (rule find_path_deterministic) (simp_all only: r1 r2 q, simp_all)
  with r1 r2 ne vs t show ?thesis by simp
qed

end
